theory Spec2Isabelle
  imports Complex_Main
begin

section \<open>The weighted tree of \<^verbatim>\<open>tree_data.py\<close>\<close>

text \<open>
  \<^verbatim>\<open>AbstractTree\<close> objects are mutable and refer to each other in both directions
  (\<^verbatim>\<open>_subtrees\<close> downwards, \<^verbatim>\<open>_parent_tree\<close> upwards), so the objects live in a store:
  a list of objects, an object's address being its index. A reference is an address,
  \<^verbatim>\<open>None\<close> is \<open>None\<close>.

  \<^item> \<open>root_value\<close> is the attribute \<^verbatim>\<open>_root\<close> (the name \<open>root\<close> is taken by the
    library), \<open>None\<close> for an empty tree;
  \<^item> \<open>colour\<close> is drawn by \<^verbatim>\<open>randint\<close> in the constructor; the model takes the three
    numbers drawn as an argument.
\<close>

type_synonym addr = nat
type_synonym colour_rgb = "nat \<times> nat \<times> nat"
type_synonym rect = "int \<times> int \<times> int \<times> int"

record abstract_tree =
  root_value :: "string option"
  subtrees :: "addr list"
  parent_tree :: "addr option"
  data_size :: int
  colour :: colour_rgb

type_synonym store = "abstract_tree list"

text \<open>
  The exceptions the methods can raise. \<open>AttributeError\<close> is what Python raises for a
  method call on \<^verbatim>\<open>None\<close>. The recursive methods take the recursion depth still
  available as their first argument and raise \<open>RecursionError\<close> when it is used up, which
  is what Python does on a structure that is too deep or cyclic. The other three come
  from the arithmetic on \<^verbatim>\<open>float\<close>.
\<close>

datatype error =
  AttributeError | RecursionError | OverflowError | ValueError | ZeroDivisionError

text \<open>
  A method that mutates returns the new store; when it raises, the exception comes with
  the store as the writes made before the \<^verbatim>\<open>raise\<close> left it.
\<close>

type_synonym mutation = "(error \<times> store) + store"

subsection \<open>\<^verbatim>\<open>__init__\<close> and \<^verbatim>\<open>is_empty\<close>\<close>

definition adopt :: "addr \<Rightarrow> addr \<Rightarrow> store \<Rightarrow> store" where
  \<comment> \<open>one round of the constructor's loop:
      \<^verbatim>\<open>self.data_size += subtree.data_size; subtree._parent_tree = self\<close>\<close>
  "adopt self subtree h =
     (let h1 = h[self := (h ! self)\<lparr>data_size := data_size (h ! self) + data_size (h ! subtree)\<rparr>]
      in h1[subtree := (h1 ! subtree)\<lparr>parent_tree := Some self\<rparr>])"

definition init :: "store \<Rightarrow> string option \<Rightarrow> addr list \<Rightarrow> int \<Rightarrow> colour_rgb \<Rightarrow> store \<times> addr" where
  \<comment> \<open>\<^verbatim>\<open>AbstractTree(root, subtrees, data_size)\<close>: the new object is allocated at the end of
      the store; the result is the store and the address of the new object\<close>
  "init h label sub explicit_size rgb =
     (let self = length h;
          h1 = h @ [\<lparr>root_value = label, subtrees = sub, parent_tree = None,
                     data_size = explicit_size, colour = rgb\<rparr>]
      in (if sub \<noteq> [] then fold (adopt self) sub h1 else h1, self))"

definition is_empty :: "store \<Rightarrow> addr \<Rightarrow> bool" where
  "is_empty h self = (root_value (h ! self) = None)"

subsection \<open>\<^verbatim>\<open>update_size\<close>, \<^verbatim>\<open>delete\<close>, \<^verbatim>\<open>change_prop\<close>\<close>

fun update_size :: "nat \<Rightarrow> store \<Rightarrow> addr \<Rightarrow> int \<Rightarrow> mutation" where
  "update_size 0 h self size_change = Inl (RecursionError, h)"
| "update_size (Suc depth) h self size_change =
     (let h1 = h[self := (h ! self)\<lparr>data_size := data_size (h ! self) + size_change\<rparr>]
      in case parent_tree (h1 ! self) of
           None \<Rightarrow> Inr h1
         | Some p \<Rightarrow> update_size depth h1 p size_change)"

definition delete :: "nat \<Rightarrow> store \<Rightarrow> addr \<Rightarrow> mutation" where
  "delete depth h self =
     (let h1 = h[self := (h ! self)\<lparr>root_value := None\<rparr>]
      in case parent_tree (h1 ! self) of
           None \<Rightarrow> Inl (AttributeError, h1)
         | Some p \<Rightarrow>
             (case update_size depth h1 p (data_size (h1 ! self) * - 1) of
                Inl e \<Rightarrow> Inl e
              | Inr h2 \<Rightarrow>
                  (let h3 = h2[self := (h2 ! self)\<lparr>parent_tree := None\<rparr>]
                   in Inr (h3[self := (h3 ! self)\<lparr>data_size := 0\<rparr>]))))"

subsection \<open>The arithmetic of \<^verbatim>\<open>float\<close>\<close>

text \<open>
  A Python \<^verbatim>\<open>float\<close> is an IEEE 754 double: a number \<open>m \<times> 2\<^sup>e\<close> with \<open>|m| < 2\<^sup>5\<^sup>3\<close> and
  \<open>- 1074 \<le> e \<le> 971\<close>, an infinity, or a NaN. A finite double is modelled by the rational
  number it stands for (the two zeros are one). Every operation computes the exact result
  and rounds it to the nearest double, to the even one of two that are equally near;
  a result of magnitude \<open>2\<^sup>1\<^sup>0\<^sup>2\<^sup>4\<close> or more after rounding is an infinity.
\<close>

datatype pyfloat = Finite rat | PosInf | NegInf | NaN

fun bit_length :: "nat \<Rightarrow> nat" where
  "bit_length n = (if n = 0 then 0 else Suc (bit_length (n div 2)))"

declare bit_length.simps [simp del]

definition pow2 :: "int \<Rightarrow> rat" where
  "pow2 k = (if 0 \<le> k then 2 ^ nat k else 1 / 2 ^ nat (- k))"

definition ilog2 :: "rat \<Rightarrow> int" where
  \<comment> \<open>for \<open>x > 0\<close>, the \<open>k\<close> with \<open>2\<^sup>k \<le> x < 2\<^sup>k\<^sup>+\<^sup>1\<close>\<close>
  "ilog2 x =
     (if 1 \<le> x then int (bit_length (nat \<lfloor>x\<rfloor>)) - 1
      else (let j = int (bit_length (nat \<lceil>1 / x\<rceil>))
            in if pow2 (1 - j) \<le> x then 1 - j else - j))"

definition round_half_even :: "rat \<Rightarrow> int" where
  "round_half_even q =
     (let f = \<lfloor>q\<rfloor>; r = q - of_int f
      in if r < 1 / 2 then f else if 1 / 2 < r then f + 1 else if even f then f else f + 1)"

definition round_double :: "rat \<Rightarrow> pyfloat" where
  \<comment> \<open>the double nearest to \<open>x\<close>: 53 bits from the leading one, or steps of \<open>2\<^sup>-\<^sup>1\<^sup>0\<^sup>7\<^sup>4\<close> below
      \<open>2\<^sup>-\<^sup>1\<^sup>0\<^sup>2\<^sup>2\<close>\<close>
  "round_double x =
     (if x = 0 then Finite 0
      else (let e = max (ilog2 \<bar>x\<bar> - 52) (- 1074);
                m = round_half_even (\<bar>x\<bar> / pow2 e);
                r = of_int m * pow2 e
            in if pow2 1024 \<le> r then (if 0 < x then PosInf else NegInf)
               else Finite (sgn x * r)))"

definition is_double :: "rat \<Rightarrow> bool" where
  \<comment> \<open>the rational numbers that are doubles\<close>
  "is_double q = (round_double q = Finite q)"

definition float_of_int :: "int \<Rightarrow> error + rat" where
  \<comment> \<open>the conversion of an \<^verbatim>\<open>int\<close> operand of a \<^verbatim>\<open>float\<close> operation\<close>
  "float_of_int n =
     (case round_double (of_int n) of Finite r \<Rightarrow> Inr r | _ \<Rightarrow> Inl OverflowError)"

fun float_mul :: "rat \<Rightarrow> pyfloat \<Rightarrow> pyfloat" where
  \<comment> \<open>the product of a finite \<^verbatim>\<open>float\<close> and a \<^verbatim>\<open>float\<close>\<close>
  "float_mul x (Finite y) = round_double (x * y)"
| "float_mul x PosInf = (if 0 < x then PosInf else if x < 0 then NegInf else NaN)"
| "float_mul x NegInf = (if 0 < x then NegInf else if x < 0 then PosInf else NaN)"
| "float_mul x NaN = NaN"

fun math_ceil :: "pyfloat \<Rightarrow> error + int" where
  "math_ceil (Finite q) = Inr \<lceil>q\<rceil>"
| "math_ceil PosInf = Inl OverflowError"
| "math_ceil NegInf = Inl OverflowError"
| "math_ceil NaN = Inl ValueError"

fun int_of_float :: "pyfloat \<Rightarrow> error + int" where
  \<comment> \<open>\<^verbatim>\<open>int(x)\<close>, which truncates towards zero\<close>
  "int_of_float (Finite q) = Inr (if 0 \<le> q then \<lfloor>q\<rfloor> else \<lceil>q\<rceil>)"
| "int_of_float PosInf = Inl OverflowError"
| "int_of_float NegInf = Inl OverflowError"
| "int_of_float NaN = Inl ValueError"

fun float_abs :: "pyfloat \<Rightarrow> pyfloat" where
  "float_abs (Finite q) = Finite \<bar>q\<bar>"
| "float_abs PosInf = PosInf"
| "float_abs NegInf = PosInf"
| "float_abs NaN = NaN"

fun float_ge_zero :: "pyfloat \<Rightarrow> bool" where
  \<comment> \<open>\<^verbatim>\<open>x >= 0\<close>\<close>
  "float_ge_zero (Finite q) = (0 \<le> q)"
| "float_ge_zero PosInf = True"
| "float_ge_zero NegInf = False"
| "float_ge_zero NaN = False"

definition ceil_times :: "int \<Rightarrow> pyfloat \<Rightarrow> error + int" where
  \<comment> \<open>\<^verbatim>\<open>math.ceil(n * x)\<close> for an \<^verbatim>\<open>int\<close> \<open>n\<close> and a \<^verbatim>\<open>float\<close> \<open>x\<close>\<close>
  "ceil_times n x =
     (case float_of_int n of Inl e \<Rightarrow> Inl e | Inr y \<Rightarrow> math_ceil (float_mul y x))"

definition true_div :: "int \<Rightarrow> int \<Rightarrow> error + rat" where
  \<comment> \<open>\<^verbatim>\<open>a / b\<close> for two \<^verbatim>\<open>int\<close>: the quotient, rounded once\<close>
  "true_div a b =
     (if b = 0 then Inl ZeroDivisionError
      else (case round_double (of_int a / of_int b) of
              Finite r \<Rightarrow> Inr r | _ \<Rightarrow> Inl OverflowError))"

definition py_share :: "int \<Rightarrow> int \<Rightarrow> int \<Rightarrow> error + int" where
  \<comment> \<open>\<^verbatim>\<open>int(a / b * w)\<close>\<close>
  "py_share a b w =
     (case true_div a b of
        Inl e \<Rightarrow> Inl e
      | Inr q \<Rightarrow>
          (case float_of_int w of
             Inl e \<Rightarrow> Inl e
           | Inr width \<Rightarrow> int_of_float (round_double (q * width))))"

text \<open>
  The factor by which the two roundings of \<^verbatim>\<open>a / b * w\<close>, of the quotient and of the
  product, can take the result above the exact one.
\<close>

definition two_roundings :: rat where
  "two_roundings = (1 + 1 / 2 ^ 53) * (1 + 1 / 2 ^ 53)"

subsection \<open>\<^verbatim>\<open>change_prop\<close>\<close>

text \<open>
  The exceptions of the arithmetic are raised before \<^verbatim>\<open>update_size\<close> is called, so they
  leave the store as it was.
\<close>

definition change_prop :: "nat \<Rightarrow> store \<Rightarrow> addr \<Rightarrow> pyfloat \<Rightarrow> mutation" where
  "change_prop depth h self proportion =
     (case (if float_ge_zero proportion
            then ceil_times (data_size (h ! self)) proportion
            else (case ceil_times (data_size (h ! self)) (float_abs proportion) of
                    Inl e \<Rightarrow> Inl e
                  | Inr c \<Rightarrow> Inr (c * - 1))) of
        Inl e \<Rightarrow> Inl (e, h)
      | Inr size_change \<Rightarrow>
          update_size depth h self
            (if data_size (h ! self) + size_change < 1 then data_size (h ! self) - 1
             else size_change))"

subsection \<open>\<^verbatim>\<open>generate_treemap\<close> and \<^verbatim>\<open>leaf_at\<close>\<close>

text \<open>
  The width of a strip is \<^verbatim>\<open>int(subtree.data_size / self.data_size * w)\<close>. Both methods
  take this computation as their first argument \<open>share\<close>, which returns the width or the
  exception that the arithmetic raises; the computation of the source is \<open>py_share\<close>.
\<close>

definition drop_last :: "nat \<Rightarrow> 'a list \<Rightarrow> 'a list" where
  \<comment> \<open>the slice \<^verbatim>\<open>result[:-k]\<close>, which is empty for \<^verbatim>\<open>k == 0\<close>\<close>
  "drop_last k xs = (if k = 0 then [] else take (length xs - k) xs)"

text \<open>
  The loop \<^verbatim>\<open>for i in range(len(self._subtrees))\<close> is a recursion on the subtrees still
  to visit: \<^verbatim>\<open>i < len(self._subtrees) - 1\<close> holds when more subtrees follow, and
  \<^verbatim>\<open>i == len(self._subtrees) - 1\<close> when none does. The loop's variables \<^verbatim>\<open>x\<close>, \<^verbatim>\<open>y\<close>,
  \<^verbatim>\<open>result\<close> and \<^verbatim>\<open>last_tree\<close> are its arguments; \<open>rect\<close> keeps \<^verbatim>\<open>ini_x\<close>, \<^verbatim>\<open>ini_y\<close>,
  \<^verbatim>\<open>w\<close> and \<^verbatim>\<open>h\<close>. The method the loop calls on a subtree, \<^verbatim>\<open>generate_treemap\<close> itself
  one level deeper, is the argument \<open>call\<close>. The file \<^verbatim>\<open>testingmaterial.txt\<close> that the
  source writes before it returns is left out.
\<close>

fun treemap_loop ::
    "(addr \<Rightarrow> rect \<Rightarrow> error + (rect \<times> colour_rgb) list) \<Rightarrow>
     (int \<Rightarrow> int \<Rightarrow> int \<Rightarrow> error + int) \<Rightarrow> store \<Rightarrow> addr \<Rightarrow> rect \<Rightarrow> addr list \<Rightarrow>
     int \<times> int \<Rightarrow> (rect \<times> colour_rgb) list \<Rightarrow> addr option \<times> nat \<times> int \<Rightarrow>
     error + (rect \<times> colour_rgb) list"
where
  "treemap_loop call share h self rect [] xy result last_tree = Inr result"
| "treemap_loop call share h self rect (subtree # rest) (x, y) result last_tree =
     (case rect of (ini_x, ini_y, w, ht) \<Rightarrow>
        if w > ht then
          (case (if rest \<noteq> []
                 then share (data_size (h ! subtree)) (data_size (h ! self)) w
                 else Inr (w - x + ini_x)) of
             Inl e \<Rightarrow> Inl e
           | Inr local_w \<Rightarrow>
              case call subtree (x, y, local_w, ht) of
                Inl e \<Rightarrow> Inl e
              | Inr sub_treemap \<Rightarrow>
                  (let result1 = result @ sub_treemap;
                       last_tree1 = (if sub_treemap \<noteq> []
                                     then (Some subtree, length sub_treemap, x)
                                     else last_tree)
                   in if rest = [] then
                        (case last_tree1 of (lt, k, lx) \<Rightarrow>
                           (case lt of
                              None \<Rightarrow> Inl AttributeError
                            | Some t \<Rightarrow>
                                (case call t (lx, y, w - lx + ini_x, ht) of
                                   Inl e \<Rightarrow> Inl e
                                 | Inr sub_treemap2 \<Rightarrow>
                                     Inr (drop_last k result1 @ sub_treemap2))))
                      else treemap_loop call share h self rect rest
                             (x + local_w, y) result1 last_tree1))
        else
          (case (if rest \<noteq> []
                 then share (data_size (h ! subtree)) (data_size (h ! self)) ht
                 else Inr (ht - y + ini_y)) of
             Inl e \<Rightarrow> Inl e
           | Inr local_h \<Rightarrow>
              case call subtree (x, y, w, local_h) of
                Inl e \<Rightarrow> Inl e
              | Inr sub_treemap \<Rightarrow>
                  (let result1 = result @ sub_treemap;
                       last_tree1 = (if sub_treemap \<noteq> []
                                     then (Some subtree, length sub_treemap, y)
                                     else last_tree)
                   in if rest = [] then
                        (case last_tree1 of (lt, k, ly) \<Rightarrow>
                           (case lt of
                              None \<Rightarrow> Inl AttributeError
                            | Some t \<Rightarrow>
                                (case call t (x, ly, w, ht - ly + ini_y) of
                                   Inl e \<Rightarrow> Inl e
                                 | Inr sub_treemap2 \<Rightarrow>
                                     Inr (drop_last k result1 @ sub_treemap2))))
                      else treemap_loop call share h self rect rest
                             (x, y + local_h) result1 last_tree1)))"

primrec generate_treemap ::
    "(int \<Rightarrow> int \<Rightarrow> int \<Rightarrow> error + int) \<Rightarrow> nat \<Rightarrow> store \<Rightarrow> addr \<Rightarrow> rect \<Rightarrow>
     error + (rect \<times> colour_rgb) list"
where
  "generate_treemap share 0 h self rect = Inl RecursionError"
| "generate_treemap share (Suc depth) h self rect =
     (if data_size (h ! self) = 0 then Inr []
      else if length (subtrees (h ! self)) = 0 then Inr [(rect, colour (h ! self))]
      else (case rect of (x, y, w, ht) \<Rightarrow>
              treemap_loop (generate_treemap share depth h) share h self rect
                (subtrees (h ! self)) (x, y) [] (None, 0, 0)))"

text \<open>
  In \<^verbatim>\<open>leaf_at\<close> the test \<^verbatim>\<open>if result\<close> is the test for \<^verbatim>\<open>None\<close>: a tree object is
  always true. \<^verbatim>\<open>last_tree\<close> is here the triple of the tree, \<^verbatim>\<open>x\<close> and \<^verbatim>\<open>y\<close>.
\<close>

fun leaf_loop ::
    "(addr \<Rightarrow> rect \<Rightarrow> error + addr option) \<Rightarrow>
     (int \<Rightarrow> int \<Rightarrow> int \<Rightarrow> error + int) \<Rightarrow> store \<Rightarrow> addr \<Rightarrow> rect \<Rightarrow> addr list \<Rightarrow>
     int \<times> int \<Rightarrow> addr option \<times> int \<times> int \<Rightarrow> addr option \<Rightarrow> error + addr option"
where
  "leaf_loop call share h self rect [] xy last_tree result = Inr result"
| "leaf_loop call share h self rect (subtree # rest) (x, y) last_tree result =
     (if result \<noteq> None then Inr result
      else case rect of (ini_x, ini_y, w, ht) \<Rightarrow>
        if w > ht then
          (case share (data_size (h ! subtree)) (data_size (h ! self)) w of
             Inl e \<Rightarrow> Inl e
           | Inr local_w \<Rightarrow>
              case (if data_size (h ! subtree) > 0
                    then (case call subtree (x, y, local_w, ht) of
                            Inl e \<Rightarrow> Inl e
                          | Inr found \<Rightarrow> Inr ((Some subtree, x, y), found))
                    else Inr (last_tree, result)) of
                Inl e \<Rightarrow> Inl e
              | Inr (last_tree1, result1) \<Rightarrow>
                  if rest = [] then
                    (case last_tree1 of (lt, lx, ly) \<Rightarrow>
                       (case lt of
                          None \<Rightarrow> Inl AttributeError
                        | Some t \<Rightarrow> call t (lx, ly, w - lx + ini_x, ht)))
                  else leaf_loop call share h self rect rest
                         (x + local_w, y) last_tree1 result1)
        else
          (case share (data_size (h ! subtree)) (data_size (h ! self)) ht of
             Inl e \<Rightarrow> Inl e
           | Inr local_h \<Rightarrow>
              case (if data_size (h ! subtree) > 0
                    then (case call subtree (x, y, w, local_h) of
                            Inl e \<Rightarrow> Inl e
                          | Inr found \<Rightarrow> Inr ((Some subtree, x, y), found))
                    else Inr (last_tree, result)) of
                Inl e \<Rightarrow> Inl e
              | Inr (last_tree1, result1) \<Rightarrow>
                  if rest = [] then
                    (case last_tree1 of (lt, lx, ly) \<Rightarrow>
                       (case lt of
                          None \<Rightarrow> Inl AttributeError
                        | Some t \<Rightarrow> call t (lx, ly, w, ht - ly + ini_y)))
                  else leaf_loop call share h self rect rest
                         (x, y + local_h) last_tree1 result1))"

primrec leaf_at ::
    "(int \<Rightarrow> int \<Rightarrow> int \<Rightarrow> error + int) \<Rightarrow> nat \<Rightarrow> store \<Rightarrow> addr \<Rightarrow> int \<times> int \<Rightarrow> rect \<Rightarrow>
     error + addr option"
where
  "leaf_at share 0 h self pos rect = Inl RecursionError"
| "leaf_at share (Suc depth) h self pos rect =
     (case rect of (x, y, w, ht) \<Rightarrow>
        if data_size (h ! self) = 0 then Inr None
        else if length (subtrees (h ! self)) = 0 then
          (if x \<le> fst pos \<and> fst pos \<le> x + w \<and> y \<le> snd pos \<and> snd pos \<le> y + ht
           then Inr (Some self) else Inr None)
        else leaf_loop (\<lambda>t. leaf_at share depth h t pos) share h self rect
               (subtrees (h ! self)) (x, y) (None, 0, 0) None)"

section \<open>Notions the properties are stated with\<close>

subsection \<open>The parent chain\<close>

text \<open>
  \<open>path_to_root depth h n\<close> follows \<^verbatim>\<open>_parent_tree\<close> from \<open>n\<close>: it is the list of \<open>n\<close> and
  its ancestors, ending at the root, when the chain stays inside the store and ends
  within \<open>depth\<close> objects, and \<open>None\<close> otherwise.
\<close>

fun path_to_root :: "nat \<Rightarrow> store \<Rightarrow> addr \<Rightarrow> addr list option" where
  "path_to_root 0 h n = None"
| "path_to_root (Suc depth) h n =
     (if n < length h then
        (case parent_tree (h ! n) of
           None \<Rightarrow> Some [n]
         | Some p \<Rightarrow> map_option ((#) n) (path_to_root depth h p))
      else None)"

subsection \<open>Well-formed stores and sequences of mutations\<close>

text \<open>
  Weight conservation: an object with at least one subtree weighs the sum of the weights
  of its subtrees, each counted as often as the list has it.
\<close>

definition weights_conserved :: "store \<Rightarrow> bool" where
  "weights_conserved h =
     (\<forall>n<length h. subtrees (h ! n) \<noteq> [] \<longrightarrow>
        data_size (h ! n) = (\<Sum>c\<leftarrow>subtrees (h ! n). data_size (h ! c)))"

text \<open>
  The links of a store of trees, as the constructor builds them and \<^verbatim>\<open>delete\<close> leaves
  them: the subtrees of an object are objects of the store; the parent chain of every
  object ends, within \<open>depth\<close> objects; an object that has a parent is among the subtrees
  of that parent, once; a subtree that has a label refers back to the object that holds
  it (a subtree emptied by \<^verbatim>\<open>delete\<close> stays in the list and refers to nothing); an empty
  tree has no subtrees.
\<close>

definition well_linked :: "nat \<Rightarrow> store \<Rightarrow> bool" where
  "well_linked depth h =
     (\<forall>n<length h.
        (\<forall>c\<in>set (subtrees (h ! n)). c < length h) \<and>
        path_to_root depth h n \<noteq> None \<and>
        (\<forall>p. parent_tree (h ! n) = Some p \<longrightarrow> count_list (subtrees (h ! p)) n = 1) \<and>
        (\<forall>c\<in>set (subtrees (h ! n)).
           root_value (h ! c) \<noteq> None \<longrightarrow> parent_tree (h ! c) = Some n) \<and>
        (root_value (h ! n) = None \<longrightarrow> subtrees (h ! n) = []))"

definition is_leaf :: "store \<Rightarrow> addr \<Rightarrow> bool" where
  \<comment> \<open>a leaf: an object with a label and no subtrees\<close>
  "is_leaf h n = (n < length h \<and> root_value (h ! n) \<noteq> None \<and> subtrees (h ! n) = [])"

datatype call = Delete addr | Change_prop addr pyfloat

fun target :: "call \<Rightarrow> addr" where
  "target (Delete n) = n"
| "target (Change_prop n p) = n"

fun mutate :: "nat \<Rightarrow> store \<Rightarrow> call \<Rightarrow> mutation" where
  "mutate depth h (Delete n) = delete depth h n"
| "mutate depth h (Change_prop n p) = change_prop depth h n p"

fun store_after :: "mutation \<Rightarrow> store" where
  \<comment> \<open>the store a call leaves, whether it returned or raised\<close>
  "store_after (Inl (e, h)) = h"
| "store_after (Inr h) = h"

fun run :: "nat \<Rightarrow> store \<Rightarrow> call list \<Rightarrow> store" where
  "run depth h [] = h"
| "run depth h (c # cs) = run depth (store_after (mutate depth h c)) cs"

fun on_leaves :: "nat \<Rightarrow> store \<Rightarrow> call list \<Rightarrow> bool" where
  \<comment> \<open>each call of the sequence is made on an object that is a leaf when it is made\<close>
  "on_leaves depth h [] = True"
| "on_leaves depth h (c # cs) =
     (is_leaf h (target c) \<and> on_leaves depth (store_after (mutate depth h c)) cs)"

subsection \<open>Well-formed trees, their leaves, points and rectangles\<close>

text \<open>
  \<open>tree_wf depth h n\<close>: the objects reachable from \<open>n\<close> through \<^verbatim>\<open>_subtrees\<close> are objects
  of the store, on at most \<open>depth\<close> levels counting \<open>n\<close>, and satisfy the invariants of the
  weights: no weight is negative, and an object with subtrees weighs their sum.
\<close>

fun tree_wf :: "nat \<Rightarrow> store \<Rightarrow> addr \<Rightarrow> bool" where
  "tree_wf 0 h n = False"
| "tree_wf (Suc depth) h n =
     (n < length h \<and> 0 \<le> data_size (h ! n) \<and>
      (subtrees (h ! n) \<noteq> [] \<longrightarrow>
         data_size (h ! n) = (\<Sum>c\<leftarrow>subtrees (h ! n). data_size (h ! c)) \<and>
         (\<forall>c\<in>set (subtrees (h ! n)). tree_wf depth h c)))"

text \<open>
  The leaves that are drawn: the objects without subtrees and with a weight other than 0
  below \<open>n\<close>, in the order of the \<^verbatim>\<open>_subtrees\<close> lists.
\<close>

fun leaves :: "nat \<Rightarrow> store \<Rightarrow> addr \<Rightarrow> addr list" where
  "leaves 0 h n = []"
| "leaves (Suc depth) h n =
     (if data_size (h ! n) = 0 then []
      else if subtrees (h ! n) = [] then [n]
      else concat (map (leaves depth h) (subtrees (h ! n))))"


definition inside :: "rect \<Rightarrow> int \<times> int \<Rightarrow> bool" where
  \<comment> \<open>the pixels that filling the rectangle paints: the right and bottom edges excluded\<close>
  "inside r p = (case r of (x, y, w, ht) \<Rightarrow>
     x \<le> fst p \<and> fst p < x + w \<and> y \<le> snd p \<and> snd p < y + ht)"



text \<open>
  \<open>covering rs p\<close> counts the rectangles of the list that paint the pixel \<open>p\<close>.
  \<open>strip r a b\<close> is the part of the rectangle \<open>r\<close> between the coordinates \<open>a\<close> and \<open>b\<close>
  along the side that the layout splits: the width when \<^verbatim>\<open>w > h\<close>, the height otherwise.
\<close>

definition covering :: "rect list \<Rightarrow> int \<times> int \<Rightarrow> nat" where
  "covering rs p = length (filter (\<lambda>r. inside r p) rs)"

definition strip :: "rect \<Rightarrow> int \<Rightarrow> int \<Rightarrow> rect" where
  "strip r a b = (case r of (x, y, w, ht) \<Rightarrow>
     if w > ht then (a, y, b - a, ht) else (x, a, w, b - a))"

subsection \<open>The stores of the examples\<close>

text \<open>A leaf and an inner node, both black, with the parent the store gives them.\<close>

definition leaf_obj :: "string \<Rightarrow> int \<Rightarrow> addr option \<Rightarrow> abstract_tree" where
  "leaf_obj name weight parent =
     \<lparr>root_value = Some name, subtrees = [], parent_tree = parent, data_size = weight,
      colour = (0, 0, 0)\<rparr>"

definition inner_obj :: "string \<Rightarrow> addr list \<Rightarrow> int \<Rightarrow> addr option \<Rightarrow> abstract_tree" where
  "inner_obj name children weight parent =
     \<lparr>root_value = Some name, subtrees = children, parent_tree = parent, data_size = weight,
      colour = (0, 0, 0)\<rparr>"

text \<open>
  The tree of the scenarios, a root with three leaves of weights 10, 20 and 30; two leaves
  of weight 1 under a root; and a tree whose second subtree has two leaves and whose last
  subtree is an emptied leaf.
\<close>

definition scenario_tree :: store where
  "scenario_tree =
     [leaf_obj ''a'' 10 (Some 3), leaf_obj ''b'' 20 (Some 3), leaf_obj ''c'' 30 (Some 3),
      inner_obj ''root'' [0, 1, 2] 60 None]"


definition emptied_last_tree :: store where
  "emptied_last_tree =
     [leaf_obj ''l'' 2 (Some 5), leaf_obj ''a'' 1 (Some 3), leaf_obj ''b'' 1 (Some 3),
      inner_obj ''s'' [1, 2] 2 (Some 5),
      \<lparr>root_value = None, subtrees = [], parent_tree = None, data_size = 0, colour = (0, 0, 0)\<rparr>,
      inner_obj ''root'' [0, 3, 4] 4 None]"

text \<open>
  Three leaves of weights \<open>2\<^sup>5\<^sup>5 - 2\<close>, 1 and 1 under a root.
\<close>

definition heavy_tree :: store where
  "heavy_tree =
     [leaf_obj ''a'' 36028797018963966 (Some 3), leaf_obj ''b'' 1 (Some 3),
      leaf_obj ''c'' 1 (Some 3), inner_obj ''root'' [0, 1, 2] 36028797018963968 None]"

section \<open>The parent chain and \<^verbatim>\<open>update_size\<close>\<close>

lemma path_to_root_cong:
  "length h1 = length h \<Longrightarrow> \<forall>m<length h. parent_tree (h1 ! m) = parent_tree (h ! m) \<Longrightarrow>
   path_to_root d h1 n = path_to_root d h n"
  by (induction d arbitrary: n) (auto split: option.splits)

lemma path_to_root_mono:
  "path_to_root d h n = Some ns \<Longrightarrow> path_to_root (Suc d) h n = Some ns"
proof (induction d arbitrary: n ns)
  case 0
  then show ?case by simp
next
  case (Suc d)
  from Suc.prems have n: "n < length h" by (auto split: if_splits)
  show ?case
  proof (cases "parent_tree (h ! n)")
    case None
    with Suc.prems n show ?thesis by simp
  next
    case (Some p)
    with Suc.prems n obtain ps where ps: "path_to_root d h p = Some ps" "ns = n # ps"
      by auto
    from Suc.IH[OF ps(1)] have "path_to_root (Suc d) h p = Some ps" .
    then show ?thesis
      using Some n ps(2) by (subst path_to_root.simps) (simp del: path_to_root.simps)
  qed
qed

lemma path_to_root_suffix:
  "path_to_root d h n = Some ns \<Longrightarrow> m \<in> set ns \<Longrightarrow>
   \<exists>ms. path_to_root d h m = Some ms \<and> length ms \<le> length ns"
proof (induction d arbitrary: n ns)
  case 0
  then show ?case by simp
next
  case (Suc d)
  show ?case
  proof (cases "m = n")
    case True
    with Suc.prems show ?thesis by auto
  next
    case False
    from Suc.prems obtain p ps where p: "parent_tree (h ! n) = Some p"
      "path_to_root d h p = Some ps" "ns = n # ps"
      using False by (auto split: option.splits if_splits)
    with Suc.prems False have "m \<in> set ps" by simp
    from Suc.IH[OF p(2) this] obtain ms where "path_to_root d h m = Some ms" "length ms \<le> length ps"
      by blast
    then show ?thesis using p(3) path_to_root_mono by fastforce
  qed
qed

lemma path_to_root_distinct:
  "path_to_root d h n = Some ns \<Longrightarrow> distinct ns"
proof (induction d arbitrary: n ns)
  case 0
  then show ?case by simp
next
  case (Suc d)
  show ?case
  proof (cases "parent_tree (h ! n)")
    case None
    with Suc.prems show ?thesis by (auto split: if_splits)
  next
    case (Some p)
    with Suc.prems obtain ps where ps: "path_to_root d h p = Some ps" "ns = n # ps"
      by (auto split: if_splits)
    have "n \<notin> set ps"
    proof
      assume "n \<in> set ps"
      from path_to_root_suffix[OF ps(1) this] obtain ms where
        ms: "path_to_root d h n = Some ms" "length ms \<le> length ps" by blast
      from path_to_root_mono[OF ms(1)] Suc.prems have "ms = ns" by simp
      with ms(2) ps(2) show False by simp
    qed
    with Suc.IH[OF ps(1)] ps(2) show ?thesis by simp
  qed
qed

lemma path_to_root_in_range:
  "path_to_root d h n = Some ns \<Longrightarrow> m \<in> set ns \<Longrightarrow> m < length h"
  by (induction d arbitrary: n ns) (auto split: option.splits if_splits)

lemma path_to_root_hd:
  "path_to_root d h n = Some ns \<Longrightarrow> n \<in> set ns \<and> n < length h"
  by (cases d) (auto split: option.splits if_splits)

lemma update_size_path:
  "path_to_root d h n = Some ns \<Longrightarrow>
   \<exists>h'. update_size d h n delta = Inr h' \<and> length h' = length h \<and>
     (\<forall>m<length h. h' ! m = (if m \<in> set ns
          then (h ! m)\<lparr>data_size := data_size (h ! m) + delta\<rparr> else h ! m))"
proof (induction d arbitrary: h n ns)
  case 0
  then show ?case by simp
next
  case (Suc d)
  let ?h1 = "h[n := (h ! n)\<lparr>data_size := data_size (h ! n) + delta\<rparr>]"
  from Suc.prems have n: "n < length h" by (auto split: if_splits)
  show ?case
  proof (cases "parent_tree (h ! n)")
    case None
    with Suc.prems n show ?thesis by (auto simp: Let_def nth_list_update)
  next
    case (Some p)
    with Suc.prems n obtain ps where ps: "path_to_root d h p = Some ps" "ns = n # ps"
      by auto
    from path_to_root_distinct[OF Suc.prems] ps(2) have nps: "n \<notin> set ps" by simp
    have "path_to_root d ?h1 p = path_to_root d h p"
      using n by (intro path_to_root_cong) (auto simp: nth_list_update)
    with ps(1) have "path_to_root d ?h1 p = Some ps" by simp
    from Suc.IH[OF this] obtain h' where h': "update_size d ?h1 p delta = Inr h'"
      "length h' = length ?h1"
      "\<forall>m<length ?h1. h' ! m = (if m \<in> set ps
          then (?h1 ! m)\<lparr>data_size := data_size (?h1 ! m) + delta\<rparr> else ?h1 ! m)"
      by blast
    have "update_size (Suc d) h n delta = Inr h'"
      using h'(1) Some n by (simp add: Let_def)
    moreover have "length h' = length h" using h'(2) by simp
    moreover have "\<forall>m<length h. h' ! m = (if m \<in> set ns
          then (h ! m)\<lparr>data_size := data_size (h ! m) + delta\<rparr> else h ! m)"
      using h'(3) nps ps(2) n by (auto simp: nth_list_update)
    ultimately show ?thesis by blast
  qed
qed

lemma path_to_root_parent_notin:
  assumes "n < length h" "parent_tree (h ! n) = Some p" "path_to_root d h p = Some ps"
  shows "n \<notin> set ps"
proof -
  have "path_to_root (Suc d) h n = Some (n # ps)" using assms by simp
  from path_to_root_distinct[OF this] show ?thesis by simp
qed

lemma path_to_root_closed:
  "path_to_root d h n = Some ns \<Longrightarrow> c \<in> set ns \<Longrightarrow> parent_tree (h ! c) = Some m \<Longrightarrow>
   m \<in> set ns"
proof (induction d arbitrary: n ns)
  case 0
  then show ?case by simp
next
  case (Suc d)
  from Suc.prems(1) have n: "n < length h" by (auto split: if_splits)
  show ?case
  proof (cases "parent_tree (h ! n)")
    case None
    with Suc.prems n show ?thesis by auto
  next
    case (Some p)
    with Suc.prems(1) n obtain ps where ps: "path_to_root d h p = Some ps" "ns = n # ps"
      by auto
    from path_to_root_hd[OF ps(1)] have pin: "p \<in> set ps" by simp
    show ?thesis
    proof (cases "c = n")
      case True
      with Suc.prems(3) Some pin ps(2) show ?thesis by simp
    next
      case False
      with Suc.prems(2) ps(2) have "c \<in> set ps" by simp
      from Suc.IH[OF ps(1) this Suc.prems(3)] ps(2) show ?thesis by simp
    qed
  qed
qed

lemma path_to_root_pred:
  "path_to_root d h n = Some ns \<Longrightarrow> m \<in> set ns \<Longrightarrow> m \<noteq> n \<Longrightarrow>
   \<exists>q\<in>set ns. parent_tree (h ! q) = Some m"
proof (induction d arbitrary: n ns)
  case 0
  then show ?case by simp
next
  case (Suc d)
  from Suc.prems(1) have n: "n < length h" by (auto split: if_splits)
  show ?case
  proof (cases "parent_tree (h ! n)")
    case None
    with Suc.prems n show ?thesis by auto
  next
    case (Some p)
    with Suc.prems(1) n obtain ps where ps: "path_to_root d h p = Some ps" "ns = n # ps"
      by auto
    show ?thesis
    proof (cases "m = p")
      case True
      with Some ps(2) show ?thesis by auto
    next
      case False
      from Suc.prems(2,3) ps(2) have "m \<in> set ps" by simp
      from Suc.IH[OF ps(1) this False] ps(2) show ?thesis by auto
    qed
  qed
qed

lemma path_to_root_pred_unique:
  "path_to_root d h n = Some ns \<Longrightarrow> q \<in> set ns \<Longrightarrow> parent_tree (h ! q) = Some m \<Longrightarrow>
   q' \<in> set ns \<Longrightarrow> parent_tree (h ! q') = Some m \<Longrightarrow> q = q'"
proof (induction d arbitrary: n ns)
  case 0
  then show ?case by simp
next
  case (Suc d)
  from Suc.prems(1) have n: "n < length h" by (auto split: if_splits)
  show ?case
  proof (cases "parent_tree (h ! n)")
    case None
    with Suc.prems n show ?thesis by auto
  next
    case (Some p)
    with Suc.prems(1) n obtain ps where ps: "path_to_root d h p = Some ps" "ns = n # ps"
      by auto
    have no: "\<And>x. x \<in> set ps \<Longrightarrow> parent_tree (h ! x) = Some p \<Longrightarrow> False"
      using path_to_root_parent_notin[OF _ _ ps(1)] path_to_root_in_range[OF ps(1)] by blast
    show ?thesis
    proof (cases "q = n")
      case True
      show ?thesis
      proof (cases "q' = n")
        case True
        with \<open>q = n\<close> show ?thesis by simp
      next
        case False
        with Suc.prems(4) ps(2) have "q' \<in> set ps" by simp
        with no Suc.prems(3,5) True Some show ?thesis by auto
      qed
    next
      case False
      with Suc.prems(2) ps(2) have qin: "q \<in> set ps" by simp
      show ?thesis
      proof (cases "q' = n")
        case True
        with no qin Suc.prems(3,5) Some show ?thesis by auto
      next
        case False
        with Suc.prems(4) ps(2) have "q' \<in> set ps" by simp
        from Suc.IH[OF ps(1) qin Suc.prems(3) this Suc.prems(5)] show ?thesis .
      qed
    qed
  qed
qed

lemma sum_list_bump:
  "(\<Sum>c\<leftarrow>cs. f c + (if P c then delta else 0)) =
   (\<Sum>c\<leftarrow>cs. f c) + delta * int (length (filter P cs))"
  by (induction cs) (auto simp: algebra_simps)

lemma filter_eq_count:
  "length (filter (\<lambda>c. c = q) cs) = count_list cs q"
  by (induction cs) auto

section \<open>Mutations keep the store well-formed\<close>

lemma path_to_root_cut:
  assumes "length h' = length h"
    and "\<forall>m<length h. parent_tree (h' ! m) = parent_tree (h ! m) \<or> parent_tree (h' ! m) = None"
  shows "path_to_root d h n \<noteq> None \<Longrightarrow> path_to_root d h' n \<noteq> None"
proof (induction d arbitrary: n)
  case 0
  then show ?case by simp
next
  case (Suc d)
  from Suc.prems have n: "n < length h" by (auto split: if_splits)
  show ?case
  proof (cases "parent_tree (h' ! n)")
    case None
    with n assms(1) show ?thesis by simp
  next
    case (Some p)
    with assms(2) n have "parent_tree (h ! n) = Some p" by force
    with Suc.prems n have "path_to_root d h p \<noteq> None" by auto
    from Suc.IH[OF this] Some n assms(1) show ?thesis by auto
  qed
qed

lemma well_linked_parent_in_range:
  assumes "well_linked d h" "n < length h" "parent_tree (h ! n) = Some p"
  shows "p < length h"
proof -
  from assms(1,2) obtain ns where ns: "path_to_root d h n = Some ns"
    by (auto simp: well_linked_def)
  from path_to_root_hd[OF ns] path_to_root_closed[OF ns _ assms(3)]
    path_to_root_in_range[OF ns] show ?thesis by blast
qed

lemma well_linked_cut:
  assumes wl: "well_linked d h"
    and len: "length h' = length h"
    and sub: "\<forall>m<length h. subtrees (h' ! m) = subtrees (h ! m)"
    and par: "\<forall>m<length h. parent_tree (h' ! m) = parent_tree (h ! m) \<or> parent_tree (h' ! m) = None"
    and lab: "\<forall>m<length h. root_value (h' ! m) \<noteq> None \<longrightarrow>
               root_value (h ! m) \<noteq> None \<and> parent_tree (h' ! m) = parent_tree (h ! m)"
    and emp: "\<forall>m<length h. root_value (h' ! m) = None \<longrightarrow>
               root_value (h ! m) = None \<or> subtrees (h ! m) = []"
  shows "well_linked d h'"
  unfolding well_linked_def
proof (intro allI impI conjI ballI)
  fix n assume "n < length h'"
  then have n: "n < length h" using len by simp
  from wl n have wn: "\<forall>c\<in>set (subtrees (h ! n)). c < length h"
    "path_to_root d h n \<noteq> None"
    "\<forall>p. parent_tree (h ! n) = Some p \<longrightarrow> count_list (subtrees (h ! p)) n = 1"
    "\<forall>c\<in>set (subtrees (h ! n)). root_value (h ! c) \<noteq> None \<longrightarrow> parent_tree (h ! c) = Some n"
    "root_value (h ! n) = None \<longrightarrow> subtrees (h ! n) = []"
    by (auto simp: well_linked_def)
  show "path_to_root d h' n \<noteq> None"
    by (rule path_to_root_cut[OF len par wn(2)])
  { fix c assume "c \<in> set (subtrees (h' ! n))"
    then show "c < length h'" using wn(1) sub n len by simp }
  { fix p assume p: "parent_tree (h' ! n) = Some p"
    with par n have pp: "parent_tree (h ! n) = Some p" by force
    from well_linked_parent_in_range[OF wl n pp] have "p < length h" .
    with wn(3) pp sub show "count_list (subtrees (h' ! p)) n = 1" by simp }
  { fix c assume c: "c \<in> set (subtrees (h' ! n))" "root_value (h' ! c) \<noteq> None"
    from c(1) sub n have cin: "c \<in> set (subtrees (h ! n))" by simp
    with wn(1) have "c < length h" by simp
    with lab c(2) have "root_value (h ! c) \<noteq> None" "parent_tree (h' ! c) = parent_tree (h ! c)"
      by auto
    with wn(4) cin show "parent_tree (h' ! c) = Some n" by simp }
  { assume "root_value (h' ! n) = None"
    with emp n wn(5) sub show "subtrees (h' ! n) = []" by auto }
qed

lemma conserved_bump:
  assumes wl: "well_linked d h"
    and wc: "weights_conserved h"
    and leaf: "is_leaf h n"
    and path: "path_to_root d' h n = Some ns"
    and len: "length h' = length h"
    and sub: "\<forall>m<length h. subtrees (h' ! m) = subtrees (h ! m)"
    and ds: "\<forall>m<length h. data_size (h' ! m) =
               data_size (h ! m) + (if m \<in> set ns then delta else 0)"
  shows "weights_conserved h'"
  unfolding weights_conserved_def
proof (intro allI impI)
  fix m assume "m < length h'" and ne': "subtrees (h' ! m) \<noteq> []"
  then have m: "m < length h" using len by simp
  let ?cs = "subtrees (h ! m)"
  from ne' sub m have ne: "?cs \<noteq> []" by simp
  from wl m have cs_range: "\<forall>c\<in>set ?cs. c < length h"
    and refs: "\<forall>c\<in>set ?cs. root_value (h ! c) \<noteq> None \<longrightarrow> parent_tree (h ! c) = Some m"
    by (auto simp: well_linked_def)
  have labelled: "root_value (h ! c) \<noteq> None" if "c \<in> set ns" for c
  proof (cases "c = n")
    case True
    with leaf show ?thesis by (simp add: is_leaf_def)
  next
    case False
    from path_to_root_pred[OF path that False] obtain q where
      q: "q \<in> set ns" "parent_tree (h ! q) = Some c" by blast
    from path_to_root_in_range[OF path] q(1) that have "q < length h" "c < length h" by auto
    with wl q(2) have "count_list (subtrees (h ! c)) q = 1" "root_value (h ! c) = None \<longrightarrow> subtrees (h ! c) = []"
      by (auto simp: well_linked_def)
    then show ?thesis by auto
  qed
  have par: "parent_tree (h ! c) = Some m" if "c \<in> set ?cs" "c \<in> set ns" for c
    using refs that labelled by blast
  have cnt: "length (filter (\<lambda>c. c \<in> set ns) ?cs) = (if m \<in> set ns then 1 else 0)"
  proof (cases "m \<in> set ns")
    case False
    have "filter (\<lambda>c. c \<in> set ns) ?cs = []"
      using par path_to_root_closed[OF path] False by (auto simp: filter_empty_conv)
    with False show ?thesis by simp
  next
    case True
    from leaf ne have "m \<noteq> n" by (auto simp: is_leaf_def)
    from path_to_root_pred[OF path True this] obtain q where
      q: "q \<in> set ns" "parent_tree (h ! q) = Some m" by blast
    from path_to_root_in_range[OF path q(1)] have "q < length h" .
    with wl q(2) have one: "count_list ?cs q = 1" by (auto simp: well_linked_def)
    have "filter (\<lambda>c. c \<in> set ns) ?cs = filter (\<lambda>c. c = q) ?cs"
    proof (rule filter_cong[OF refl])
      fix c assume "c \<in> set ?cs"
      show "(c \<in> set ns) = (c = q)"
        using par[OF \<open>c \<in> set ?cs\<close>] path_to_root_pred_unique[OF path _ _ q] q(1) by blast
    qed
    with one True show ?thesis by (simp add: filter_eq_count)
  qed
  have "(\<Sum>c\<leftarrow>subtrees (h' ! m). data_size (h' ! c)) =
        (\<Sum>c\<leftarrow>?cs. data_size (h ! c) + (if c \<in> set ns then delta else 0))"
    using sub m ds cs_range by (auto intro!: arg_cong[where f = sum_list] map_cong)
  also have "\<dots> = (\<Sum>c\<leftarrow>?cs. data_size (h ! c)) + delta * int (length (filter (\<lambda>c. c \<in> set ns) ?cs))"
    by (rule sum_list_bump)
  also have "\<dots> = data_size (h ! m) + (if m \<in> set ns then delta else 0)"
    using wc m ne cnt by (simp add: weights_conserved_def)
  finally show "data_size (h' ! m) = (\<Sum>c\<leftarrow>subtrees (h' ! m). data_size (h' ! c))"
    using ds m by simp
qed

section \<open>The arithmetic of \<^verbatim>\<open>float\<close>: what rounding keeps\<close>

text \<open>
  \<open>ilog2\<close> finds the binade of a positive number. A number of the normal range is rounded
  with a relative error of at most \<open>2\<^sup>-\<^sup>5\<^sup>3\<close>; the integers below \<open>2\<^sup>5\<^sup>3\<close> are doubles;
  rounding does not cross a power of two, so it does not take a number that is at least 1
  below 1, and what is at least \<open>2\<^sup>1\<^sup>0\<^sup>2\<^sup>4\<close> becomes an infinity. \<open>eval_float\<close> are the
  equations that evaluate the arithmetic on numerals. For an extent below \<open>2\<^sup>5\<^sup>2\<close>,
  \<^verbatim>\<open>int(a / b * e)\<close> raises nothing and is at most \<open>a \<times> e / b\<close> times the factor of its two
  roundings, whatever the weights \<open>a \<le> b\<close> are.
\<close>

lemma pow2_powi: "pow2 k = 2 powi k"
  by (simp add: pow2_def power_int_def field_simps power_inverse)

lemma pow2_pos: "0 < pow2 k"
  by (simp add: pow2_def)

lemma pow2_add: "pow2 (a + b) = pow2 a * pow2 b"
  by (simp add: pow2_powi power_int_add)

lemma pow2_diff: "pow2 (a - b) = pow2 a / pow2 b"
  by (simp add: pow2_powi power_int_diff)

lemma pow2_mono: "a \<le> b \<Longrightarrow> pow2 a \<le> pow2 b"
  by (simp add: pow2_powi power_int_increasing)

lemma pow2_less_imp: "pow2 a < pow2 b \<Longrightarrow> a < b"
  using pow2_mono[of b a] by (cases "a < b") auto

lemma pow2_nat: "pow2 (int n) = 2 ^ n"
  by (simp add: pow2_def)

lemma pow2_neg_nat: "pow2 (- int n) = 1 / 2 ^ n"
  by (simp add: pow2_def)

lemma pow2_0: "pow2 0 = 1"
  by (simp add: pow2_def)

lemma bit_length_bounds:
  "0 < n \<Longrightarrow> 2 ^ (bit_length n - 1) \<le> n \<and> n < 2 ^ bit_length n"
proof (induction n rule: bit_length.induct)
  case (1 n)
  show ?case
  proof (cases "n div 2 = 0")
    case True
    with 1(2) have "n = 1" by (simp add: div_eq_0_iff) 
    then show ?thesis by (simp add: bit_length.simps[of "Suc 0"] bit_length.simps[of 0])
  next
    case False
    then have pos: "0 < n div 2" by simp
    from 1(1)[OF _ pos] 1(2)
    have IH: "2 ^ (bit_length (n div 2) - 1) \<le> n div 2" "n div 2 < 2 ^ bit_length (n div 2)"
      by auto
    have bl: "bit_length n = Suc (bit_length (n div 2))"
      using 1(2) by (simp add: bit_length.simps[of n])
    have blpos: "0 < bit_length (n div 2)"
      using pos by (simp add: bit_length.simps[of "n div 2"])
    then have "2 ^ (bit_length n - 1) = 2 * 2 ^ (bit_length (n div 2) - 1)"
      using bl by (cases "bit_length (n div 2)") simp_all
    also have "\<dots> \<le> 2 * (n div 2)" using IH(1) by simp
    also have "\<dots> \<le> n" by simp
    finally have A: "2 ^ (bit_length n - 1) \<le> n" .
    have "n < 2 * (n div 2) + 2" by presburger
    also have "\<dots> \<le> 2 * 2 ^ bit_length (n div 2)" using IH(2) by simp
    finally have "n < 2 ^ bit_length n" using bl by simp
    with A show ?thesis by simp
  qed
qed

lemma bit_length_pos: "0 < n \<Longrightarrow> 0 < bit_length n"
  by (simp add: bit_length.simps[of n])

lemma ilog2_bounds:
  assumes "0 < y"
  shows "pow2 (ilog2 y) \<le> y \<and> y < pow2 (ilog2 y + 1)"
proof (cases "1 \<le> y")
  case True
  define n where "n = nat \<lfloor>y\<rfloor>"
  have n1: "0 < n" using True by (simp add: n_def)
  have fl: "of_nat n \<le> y" "y < of_nat n + 1"
    using True by (simp_all add: n_def) linarith+
  from bit_length_bounds[OF n1] have b: "2 ^ (bit_length n - 1) \<le> n" "n < 2 ^ bit_length n"
    by auto
  have k: "ilog2 y = int (bit_length n - 1)"
    using True bit_length_pos[OF n1] by (simp add: ilog2_def n_def)
  have "pow2 (ilog2 y) = 2 ^ (bit_length n - 1)" by (simp add: k pow2_nat)
  also have "\<dots> \<le> of_nat n" using b(1) by (metis of_nat_le_iff of_nat_numeral of_nat_power)
  finally have A: "pow2 (ilog2 y) \<le> y" using fl(1) by simp
  have "ilog2 y + 1 = int (bit_length n)" using k bit_length_pos[OF n1] by simp
  then have "pow2 (ilog2 y + 1) = 2 ^ bit_length n" by (simp add: pow2_nat)
  moreover have "of_nat n + 1 \<le> (2::rat) ^ bit_length n"
  proof -
    have "n + 1 \<le> 2 ^ bit_length n" using b(2) by simp
    then have "(of_nat (n + 1) :: rat) \<le> of_nat (2 ^ bit_length n)" by (simp only: of_nat_le_iff)
    moreover have "(of_nat (2 ^ bit_length n) :: rat) = 2 ^ bit_length n" by simp
    moreover have "(of_nat (n + 1) :: rat) = of_nat n + 1" by simp
    ultimately show ?thesis by linarith
  qed
  ultimately show ?thesis using A fl(2) by simp
next
  case False
  define z where "z = 1 / y"
  define c where "c = nat \<lceil>z\<rceil>"
  define j where "j = bit_length c"
  have z1: "1 < z" using False assms by (simp add: z_def)
  then have c2: "2 \<le> \<lceil>z\<rceil>" by linarith
  then have cpos: "0 < c" by (simp add: c_def)
  have cz: "z \<le> of_nat c" "of_nat c < z + 1"
    using c2 by (simp_all add: c_def) linarith+
  from bit_length_bounds[OF cpos] have b: "2 ^ (j - 1) \<le> c" "c < 2 ^ j"
    by (auto simp: j_def)
  have j2: "2 \<le> j"
  proof (rule ccontr)
    assume "\<not> 2 \<le> j"
    then have "j \<le> 1" by simp
    then have "(2::nat) ^ j \<le> 2 ^ 1" by (intro power_increasing) simp_all
    with b(2) have "c < 2" by simp
    with c2 show False unfolding c_def by linarith
  qed
  have yz: "y = 1 / z" using assms by (simp add: z_def)
  have zpos: "0 < z" using z1 by simp
  have "z < 2 ^ j"
  proof -
    have "(of_nat c :: rat) < of_nat (2 ^ j)" using b(2) by (simp only: of_nat_less_iff)
    moreover have "(of_nat (2 ^ j) :: rat) = 2 ^ j" by simp
    ultimately show ?thesis using cz(1) by linarith
  qed
  then have lo: "pow2 (- int j) < y"
    using zpos assms by (simp add: pow2_neg_nat z_def field_simps)
  have "(2::rat) ^ (j - 2) < z"
  proof -
    have "(2::nat) ^ (j - 1) = 2 * 2 ^ (j - 2)"
      using j2 by (metis Suc_1 Suc_diff_Suc diff_Suc_1 less_eq_Suc_le power_Suc numeral_2_eq_2 Suc_diff_le diff_Suc_Suc)
    moreover have "(1::nat) \<le> 2 ^ (j - 2)" by simp
    ultimately have "2 ^ (j - 2) + 1 \<le> c" using b(1) by linarith
    then have "(of_nat (2 ^ (j - 2) + 1) :: rat) \<le> of_nat c" by (simp only: of_nat_le_iff)
    moreover have "(of_nat (2 ^ (j - 2) + 1) :: rat) = 2 ^ (j - 2) + 1" by simp
    ultimately show ?thesis using cz(2) by linarith
  qed
  then have hi: "y < pow2 (2 - int j)"
  proof -
    assume a: "(2::rat) ^ (j - 2) < z"
    have "2 - int j = - int (j - 2)" using j2 by simp
    then have "pow2 (2 - int j) = 1 / 2 ^ (j - 2)"
      by (simp only: pow2_neg_nat)
    moreover have "1 / z < 1 / 2 ^ (j - 2)"
      using a by (intro divide_strict_left_mono) (simp_all add: zpos)
    ultimately show ?thesis using yz by simp
  qed
  have il: "ilog2 y = (if pow2 (1 - int j) \<le> y then 1 - int j else - int j)"
    using False by (simp add: ilog2_def Let_def j_def c_def z_def)
  show ?thesis
  proof (cases "pow2 (1 - int j) \<le> y")
    case True
    then have "ilog2 y = 1 - int j" using il by simp
    moreover have "1 - int j + 1 = 2 - int j" by simp
    ultimately show ?thesis using True hi by simp
  next
    case F: False
    then have "ilog2 y = - int j" using il by simp
    moreover have "- int j + 1 = 1 - int j" by simp
    ultimately show ?thesis using F lo by simp
  qed
qed

lemma round_half_even_near: "\<bar>of_int (round_half_even t) - t\<bar> \<le> 1 / 2"
proof -
  define f where "f = \<lfloor>t\<rfloor>"
  have fb: "of_int f \<le> t" "t < of_int f + 1" unfolding f_def by linarith+
  have eq: "round_half_even t =
      (if t - of_int f < 1 / 2 then f else if 1 / 2 < t - of_int f then f + 1
       else if even f then f else f + 1)"
    by (simp add: round_half_even_def Let_def f_def)
  show ?thesis
  proof (cases "t - of_int f < 1 / 2")
    case True
    then have "round_half_even t = f" using eq by simp
    then show ?thesis using True fb by (simp add: abs_if)
  next
    case False
    show ?thesis
    proof (cases "1 / 2 < t - of_int f")
      case True
      then have "round_half_even t = f + 1" using eq False by simp
      then show ?thesis using True fb by (simp add: abs_if; linarith?)
    next
      case F: False
      with False have h: "t - of_int f = 1 / 2" by linarith
      have "round_half_even t = f \<or> round_half_even t = f + 1" using eq by presburger
      then show ?thesis using h by (auto simp: abs_if; linarith?)
    qed
  qed
qed

lemma round_half_even_floor: "\<lfloor>t\<rfloor> \<le> round_half_even t"
  by (simp add: round_half_even_def Let_def)

lemma round_half_even_ge: "of_int n \<le> t \<Longrightarrow> n \<le> round_half_even t"
  using round_half_even_floor[of t] le_floor_iff[of n t] by linarith

lemma round_half_even_int: "round_half_even (of_int n) = n"
  by (simp add: round_half_even_def)

lemma round_double_pos_unfold:
  assumes "0 < y"
  shows "round_double y =
    (if pow2 1024 \<le> of_int (round_half_even (y / pow2 (max (ilog2 y - 52) (- 1074))))
                        * pow2 (max (ilog2 y - 52) (- 1074))
     then PosInf
     else Finite (of_int (round_half_even (y / pow2 (max (ilog2 y - 52) (- 1074))))
                        * pow2 (max (ilog2 y - 52) (- 1074))))"
  using assms by (simp add: round_double_def Let_def)

lemma pow2_numeral: "pow2 (numeral n) = 2 ^ numeral n"
  by (simp add: pow2_def)

lemma round_double_normal:
  assumes "pow2 (- 1022) \<le> y" and "y < pow2 1023"
  shows "\<exists>r. round_double y = Finite r \<and> y * (1 - 1 / 2 ^ 53) \<le> r \<and> r \<le> y * (1 + 1 / 2 ^ 53)"
proof -
  have ypos: "0 < y" using assms(1) pow2_pos[of "- 1022"] by linarith
  define k where "k = ilog2 y"
  from ilog2_bounds[OF ypos] have kb: "pow2 k \<le> y" "y < pow2 (k + 1)" by (simp_all add: k_def)
  have "pow2 (- 1022) < pow2 (k + 1)" using assms(1) kb(2) by linarith
  then have k1: "- 1022 \<le> k" using pow2_less_imp[of "- 1022" "k + 1"] by simp
  define e where "e = k - 52"
  have e: "max (ilog2 y - 52) (- 1074) = e" using k1 by (simp add: e_def k_def)
  define t where "t = y / pow2 e"
  define m where "m = round_half_even t"
  define r where "r = of_int m * pow2 e"
  have pe: "0 < pow2 e" by (rule pow2_pos)
  have "r - y = (of_int m - t) * pow2 e"
    using pe by (simp add: r_def t_def field_simps)
  then have "\<bar>r - y\<bar> = \<bar>of_int m - t\<bar> * pow2 e"
    using pe by (simp add: abs_mult)
  also have "\<dots> \<le> 1 / 2 * pow2 e"
    using round_half_even_near[of t] pe by (intro mult_right_mono) (simp_all add: m_def)
  also have "pow2 e = pow2 k / 2 ^ 52"
    by (simp add: e_def pow2_diff pow2_numeral)
  finally have "\<bar>r - y\<bar> \<le> pow2 k / 2 ^ 53" by simp
  also have "\<dots> \<le> y / 2 ^ 53" using kb(1) by (simp add: divide_right_mono)
  finally have near: "\<bar>r - y\<bar> \<le> y / 2 ^ 53" .
  then have n2: "r - y \<le> y / 2 ^ 53" "y - r \<le> y / 2 ^ 53"
    by (simp_all only: abs_le_iff minus_diff_eq)
  have d: "y * (1 - 1 / 2 ^ 53) = y - y / 2 ^ 53" "y * (1 + 1 / 2 ^ 53) = y + y / 2 ^ 53"
    by (simp_all add: algebra_simps)
  have lo: "y * (1 - 1 / 2 ^ 53) \<le> r" and hi: "r \<le> y * (1 + 1 / 2 ^ 53)"
    unfolding d using n2 by linarith+
  have "y * (1 + 1 / 2 ^ 53) \<le> y * 2" using ypos by (intro mult_left_mono) simp_all
  also have "\<dots> < pow2 1023 * 2" using assms(2) by simp
  also have "\<dots> = pow2 1024" by (simp add: pow2_numeral)
  finally have fin: "\<not> pow2 1024 \<le> r" using hi by linarith
  have "round_double y = Finite r"
    using fin by (simp add: round_double_pos_unfold[OF ypos] e r_def m_def t_def)
  with lo hi show ?thesis by blast
qed

lemma round_double_int:
  assumes "0 \<le> n" and "n < 2 ^ 53"
  shows "round_double (of_int n) = Finite (of_int n)"
proof (cases "n = 0")
  case True
  then show ?thesis by (simp add: round_double_def)
next
  case False
  define y :: rat where "y = of_int n"
  have y1: "1 \<le> y" using False assms(1) by (simp add: y_def)
  then have ypos: "0 < y" by simp
  define k where "k = ilog2 y"
  from ilog2_bounds[OF ypos] have kb: "pow2 k \<le> y" "y < pow2 (k + 1)" by (simp_all add: k_def)
  have "pow2 0 < pow2 (k + 1)" using y1 kb(2) by (simp add: pow2_0)
  then have k0: "0 \<le> k" using pow2_less_imp[of 0 "k + 1"] by simp
  have "y < 2 ^ 53"
  proof -
    have "(of_int n :: rat) < of_int (2 ^ 53)" using assms(2) by (simp only: of_int_less_iff)
    then show ?thesis by (simp add: y_def)
  qed
  then have "pow2 k < pow2 53" using kb(1) by (simp add: pow2_numeral)
  then have k52: "k \<le> 52" using pow2_less_imp[of k 53] by simp
  define j where "j = nat (52 - k)"
  have e: "max (ilog2 y - 52) (- 1074) = - int j" using k0 k52 by (simp add: j_def k_def)
  have pe: "pow2 (- int j) = 1 / 2 ^ j" by (rule pow2_neg_nat)
  have t: "y / pow2 (- int j) = of_int (n * 2 ^ j)"
    by (simp add: pe y_def)
  have r: "of_int (round_half_even (y / pow2 (- int j))) * pow2 (- int j) = y"
    by (simp only: t round_half_even_int) (simp add: pe y_def)
  have "y < pow2 1024"
  proof -
    have "(2::rat) ^ 53 \<le> 2 ^ 1024" by (intro power_increasing) simp_all
    with \<open>y < 2 ^ 53\<close> show ?thesis by (simp add: pow2_numeral)
  qed
  then have "round_double y = Finite y"
    by (simp add: round_double_pos_unfold[OF ypos] e r)
  then show ?thesis by (simp add: y_def)
qed

lemma round_double_pos:
  assumes "pow2 (- 1074) \<le> y" and "round_double y = Finite r"
  shows "0 < r"
proof -
  have ypos: "0 < y" using assms(1) pow2_pos[of "- 1074"] by linarith
  define k where "k = ilog2 y"
  from ilog2_bounds[OF ypos] have kb: "pow2 k \<le> y" "y < pow2 (k + 1)" by (simp_all add: k_def)
  define e where "e = max (k - 52) (- 1074)"
  have pe: "0 < pow2 e" by (rule pow2_pos)
  have "pow2 e \<le> y"
  proof (cases "k - 52 \<le> - 1074")
    case True
    then show ?thesis using assms(1) by (simp add: e_def max_def)
  next
    case False
    then have "e \<le> k" by (simp add: e_def)
    then have "pow2 e \<le> pow2 k" by (rule pow2_mono)
    with kb(1) show ?thesis by simp
  qed
  then have "of_int 1 \<le> y / pow2 e" using pe by (simp add: field_simps)
  then have "1 \<le> round_half_even (y / pow2 e)" by (rule round_half_even_ge)
  then have "(0::rat) < of_int (round_half_even (y / pow2 e))" by simp
  then have "0 < of_int (round_half_even (y / pow2 e)) * pow2 e" using pe by simp
  moreover have "r = of_int (round_half_even (y / pow2 e)) * pow2 e"
    using assms(2) by (simp add: round_double_pos_unfold[OF ypos] e_def k_def split: if_splits)
  ultimately show ?thesis by simp
qed

lemma is_double_pos:
  assumes "is_double q" and "0 < q"
  shows "pow2 (- 1074) \<le> q"
proof -
  define e where "e = max (ilog2 q - 52) (- 1074)"
  define m where "m = round_half_even (q / pow2 e)"
  have pe: "0 < pow2 e" by (rule pow2_pos)
  have q: "q = of_int m * pow2 e"
    using assms(1) unfolding is_double_def
    by (simp add: round_double_pos_unfold[OF assms(2)] e_def m_def split: if_splits)
  with assms(2) pe have "(0::rat) < of_int m" by (simp add: zero_less_mult_iff)
  then have "1 \<le> m" by simp
  then have "(1::rat) \<le> of_int m" by simp
  then have "1 * pow2 e \<le> of_int m * pow2 e" using pe by (intro mult_right_mono) simp_all
  then have "pow2 e \<le> q" using q by simp
  moreover have "pow2 (- 1074) \<le> pow2 e" by (rule pow2_mono) (simp add: e_def)
  ultimately show ?thesis by simp
qed

lemma round_double_ge_pow2:
  assumes "- 1022 \<le> j" and "pow2 j \<le> y"
  shows "pow2 j \<le> of_int (round_half_even (y / pow2 (max (ilog2 y - 52) (- 1074))))
                    * pow2 (max (ilog2 y - 52) (- 1074))"
proof -
  have ypos: "0 < y" using assms(2) pow2_pos[of j] by linarith
  define k where "k = ilog2 y"
  from ilog2_bounds[OF ypos] have kb: "pow2 k \<le> y" "y < pow2 (k + 1)" by (simp_all add: k_def)
  have "pow2 j < pow2 (k + 1)" using assms(2) kb(2) by linarith
  then have jk: "j \<le> k" using pow2_less_imp[of j "k + 1"] by simp
  define e where "e = k - 52"
  have e: "max (ilog2 y - 52) (- 1074) = e" using jk assms(1) by (simp add: e_def k_def)
  have pe: "0 < pow2 e" by (rule pow2_pos)
  have pk: "pow2 k = 2 ^ 52 * pow2 e"
    by (simp add: e_def pow2_diff pow2_numeral)
  have "of_int (2 ^ 52) \<le> y / pow2 e"
    using kb(1) pe by (simp add: pk field_simps)
  then have m: "2 ^ 52 \<le> round_half_even (y / pow2 e)" by (rule round_half_even_ge)
  have "(of_int (2 ^ 52) :: rat) \<le> of_int (round_half_even (y / pow2 e))"
    using m by (simp only: of_int_le_iff)
  then have "2 ^ 52 * pow2 e \<le> of_int (round_half_even (y / pow2 e)) * pow2 e"
    using pe by (intro mult_right_mono) simp_all
  then have "pow2 k \<le> of_int (round_half_even (y / pow2 e)) * pow2 e" by (simp only: pk)
  moreover have "pow2 j \<le> pow2 k" using jk by (rule pow2_mono)
  ultimately show ?thesis unfolding e by linarith
qed

lemma round_double_ge_one:
  assumes "1 \<le> x" and "round_double x = Finite r"
  shows "1 \<le> r"
proof -
  have xpos: "0 < x" using assms(1) by simp
  have "pow2 0 \<le> x" using assms(1) by (simp add: pow2_0)
  from round_double_ge_pow2[OF _ this] assms(2) show ?thesis
    by (simp add: round_double_pos_unfold[OF xpos] pow2_0 split: if_splits)
qed

lemma round_double_overflow:
  assumes "pow2 1024 \<le> y"
  shows "round_double y = PosInf"
proof -
  have ypos: "0 < y" using assms pow2_pos[of 1024] by linarith
  from round_double_ge_pow2[OF _ assms] show ?thesis
    by (simp add: round_double_pos_unfold[OF ypos])
qed

lemma round_double_not_nan: "round_double x \<noteq> NaN"
  by (simp add: round_double_def Let_def)

lemma ilog2_unique:
  assumes "pow2 k \<le> y" and "y < pow2 (k + 1)"
  shows "ilog2 y = k"
proof -
  have ypos: "0 < y" using assms(1) pow2_pos[of k] by linarith
  from ilog2_bounds[OF ypos] have kb: "pow2 (ilog2 y) \<le> y" "y < pow2 (ilog2 y + 1)" by simp_all
  have "pow2 k < pow2 (ilog2 y + 1)" using assms(1) kb(2) by linarith
  then have "k < ilog2 y + 1" by (rule pow2_less_imp)
  moreover have "pow2 (ilog2 y) < pow2 (k + 1)" using assms(2) kb(1) by linarith
  then have "ilog2 y < k + 1" by (rule pow2_less_imp)
  ultimately show ?thesis by simp
qed

lemma is_double_normal:
  assumes "2 ^ 52 \<le> m" and "m < 2 ^ 53" and "- 1074 \<le> e" and "e \<le> 971"
  shows "is_double (of_int m * pow2 e)"
proof -
  define y where "y = of_int m * pow2 e"
  have pe: "0 < pow2 e" by (rule pow2_pos)
  have m1: "(2::rat) ^ 52 \<le> of_int m"
  proof -
    have "(of_int (2 ^ 52) :: rat) \<le> of_int m" using assms(1) by (simp only: of_int_le_iff)
    then show ?thesis by simp
  qed
  have m2: "of_int m < (2::rat) ^ 53"
  proof -
    have "(of_int m :: rat) < of_int (2 ^ 53)" using assms(2) by (simp only: of_int_less_iff)
    then show ?thesis by simp
  qed
  have ypos: "0 < y" using m1 pe by (simp add: y_def zero_less_mult_iff order.strict_trans2[of 0 "2 ^ 52"])
  have "pow2 (e + 52) = pow2 e * 2 ^ 52" by (simp add: pow2_add pow2_numeral)
  then have lo: "pow2 (e + 52) \<le> y" using m1 pe by (simp add: y_def mult.commute[of "pow2 e"])
  have "pow2 (e + 52 + 1) = pow2 e * 2 ^ 53"
  proof -
    have "e + 52 + 1 = e + 53" by simp
    then show ?thesis by (simp add: pow2_add pow2_numeral)
  qed
  then have hi: "y < pow2 (e + 52 + 1)" using m2 pe by (simp add: y_def mult.commute[of "pow2 e"])
  from ilog2_unique[OF lo hi] have k: "ilog2 y = e + 52" .
  have ee: "max (ilog2 y - 52) (- 1074) = e" using k assms(3) by simp
  have t: "y / pow2 e = of_int m" using pe by (simp add: y_def)
  have "y < pow2 1024"
  proof -
    have "pow2 (e + 52 + 1) \<le> pow2 1024" using assms(4) by (intro pow2_mono) simp
    with hi show ?thesis by linarith
  qed
  then have "round_double y = Finite y"
    by (simp add: round_double_pos_unfold[OF ypos] ee t round_half_even_int) (simp add: y_def)
  then show ?thesis by (simp add: is_double_def y_def)
qed

lemma float_abs_ge_zero: "float_ge_zero p \<Longrightarrow> float_abs p = p"
  by (cases p) simp_all

lemma floor_numeral_div:
  "\<lfloor>numeral a / numeral b :: rat\<rfloor> = numeral a div numeral b"
  using floor_divide_of_int_eq[of "numeral a" "numeral b", where ?'a = rat] by simp

lemma ceiling_numeral_div:
  "\<lceil>numeral a / numeral b :: rat\<rceil> = - ((- numeral a) div numeral b)"
  using ceiling_divide_eq_div[of "numeral a" "numeral b", where ?'a = rat] by simp

lemmas eval_float = round_double_def ilog2_def round_half_even_def bit_length.simps Let_def
  pow2_def floor_numeral_div ceiling_numeral_div float_of_int_def ceil_times_def true_div_def
  py_share_def is_double_def

lemma round_half_even_le: "t \<le> of_int n \<Longrightarrow> round_half_even t \<le> n"
proof -
  assume le: "t \<le> of_int n"
  define f where "f = \<lfloor>t\<rfloor>"
  have fb: "of_int f \<le> t" "t < of_int f + 1" unfolding f_def by linarith+
  have eq: "round_half_even t =
      (if t - of_int f < 1 / 2 then f else if 1 / 2 < t - of_int f then f + 1
       else if even f then f else f + 1)"
    by (simp add: round_half_even_def Let_def f_def)
  have fn: "f \<le> n" using fb(1) le by linarith
  show ?thesis
  proof (cases "t = of_int f")
    case True
    then have "round_half_even t = f" using eq by simp
    with fn show ?thesis by simp
  next
    case False
    with fb(1) have "of_int f < t" by simp
    with le have "(of_int f :: rat) < of_int n" by linarith
    then have "f < n" by (simp only: of_int_less_iff)
    moreover have "round_half_even t \<le> f + 1" unfolding eq by simp
    ultimately show ?thesis by simp
  qed
qed

lemma round_double_ge:
  assumes "- 1022 \<le> j" and "pow2 j \<le> y" and "round_double y = Finite r"
  shows "pow2 j \<le> r"
proof -
  have ypos: "0 < y" using assms(2) pow2_pos[of j] by linarith
  from round_double_ge_pow2[OF assms(1,2)] assms(3) show ?thesis
    by (simp add: round_double_pos_unfold[OF ypos] split: if_splits)
qed

lemma round_double_le_pow2:
  assumes "0 < y" and "y \<le> pow2 j" and "- 1074 \<le> j" and "j \<le> 1023"
  shows "\<exists>r. round_double y = Finite r \<and> 0 \<le> r \<and> r \<le> pow2 j"
proof -
  define k where "k = ilog2 y"
  from ilog2_bounds[OF assms(1)] have kb: "pow2 k \<le> y" by (simp add: k_def)
  have "pow2 k < pow2 (j + 1)"
  proof -
    have "pow2 1 = 2" by (simp add: pow2_def)
    moreover have "pow2 (j + 1) = pow2 j * pow2 1" by (rule pow2_add)
    ultimately have "pow2 j < pow2 (j + 1)" using pow2_pos[of j] by simp
    with kb assms(2) show ?thesis by linarith
  qed
  then have kj: "k \<le> j" using pow2_less_imp[of k "j + 1"] by simp
  define e where "e = max (k - 52) (- 1074)"
  have ej: "e \<le> j" using kj assms(3) by (simp add: e_def)
  have pe: "0 < pow2 e" by (rule pow2_pos)
  define t where "t = y / pow2 e"
  define m where "m = round_half_even t"
  have "0 \<le> t" using assms(1) pe by (simp add: t_def)
  then have "of_int 0 \<le> t" by simp
  then have m0: "0 \<le> m" unfolding m_def by (rule round_half_even_ge)
  have pj: "pow2 j = of_int (2 ^ nat (j - e)) * pow2 e"
  proof -
    have "j = int (nat (j - e)) + e" using ej by simp
    then have "pow2 j = pow2 (int (nat (j - e)) + e)" by (rule arg_cong)
    also have "\<dots> = pow2 (int (nat (j - e))) * pow2 e" by (rule pow2_add)
    also have "pow2 (int (nat (j - e))) = 2 ^ nat (j - e)" by (rule pow2_nat)
    finally show ?thesis by simp
  qed
  have "t \<le> of_int (2 ^ nat (j - e))"
    using assms(2) pe unfolding t_def pj by (simp add: field_simps)
  then have "m \<le> 2 ^ nat (j - e)" unfolding m_def by (rule round_half_even_le)
  then have "(of_int m :: rat) \<le> of_int (2 ^ nat (j - e))" by (simp only: of_int_le_iff)
  then have "of_int m * pow2 e \<le> of_int (2 ^ nat (j - e)) * pow2 e"
    using pe by (intro mult_right_mono) simp_all
  then have rj: "of_int m * pow2 e \<le> pow2 j" by (simp only: pj)
  have "pow2 j \<le> pow2 1023" using assms(4) by (rule pow2_mono)
  also have "\<dots> < pow2 1024" by (simp add: pow2_numeral)
  finally have fin: "\<not> pow2 1024 \<le> of_int m * pow2 e" using rj by linarith
  have "round_double y = Finite (of_int m * pow2 e)"
    using fin by (simp add: round_double_pos_unfold[OF assms(1)] e_def k_def m_def t_def)
  moreover have "0 \<le> of_int m * pow2 e" using m0 pe by simp
  ultimately show ?thesis using rj by blast
qed

lemma round_double_le_one:
  assumes "0 < y" and "y \<le> 1"
  shows "\<exists>r. round_double y = Finite r \<and> 0 \<le> r"
proof -
  define k where "k = ilog2 y"
  from ilog2_bounds[OF assms(1)] have kb: "pow2 k \<le> y" by (simp add: k_def)
  have "pow2 k < pow2 1"
  proof -
    have "pow2 1 = 2" by (simp add: pow2_def)
    with kb assms(2) show ?thesis by simp
  qed
  then have k0: "k \<le> 0" using pow2_less_imp[of k 1] by simp
  define e where "e = max (k - 52) (- 1074)"
  have "e \<le> 0" using k0 by (simp add: e_def)
  then have "pow2 e \<le> pow2 0" by (rule pow2_mono)
  then have pe1: "pow2 e \<le> 1" by (simp add: pow2_0)
  have pe: "0 < pow2 e" by (rule pow2_pos)
  define t where "t = y / pow2 e"
  define m where "m = round_half_even t"
  have "0 \<le> t" using assms(1) pe by (simp add: t_def)
  then have "of_int 0 \<le> t" by simp
  then have m0: "0 \<le> m" unfolding m_def by (rule round_half_even_ge)
  have "of_int m \<le> t + 1 / 2" using round_half_even_near[of t] unfolding m_def by linarith
  then have "of_int m * pow2 e \<le> (t + 1 / 2) * pow2 e" using pe by (intro mult_right_mono) simp_all
  also have "\<dots> = y + pow2 e / 2" using pe by (simp add: t_def field_simps)
  also have "\<dots> \<le> 1 + 1 / 2" using assms(2) pe1 by simp
  also have "\<dots> < pow2 1024" by (simp add: pow2_numeral)
  finally have fin: "\<not> pow2 1024 \<le> of_int m * pow2 e" by simp
  have "round_double y = Finite (of_int m * pow2 e)"
    using fin by (simp add: round_double_pos_unfold[OF assms(1)] e_def k_def m_def t_def)
  moreover have "0 \<le> of_int m * pow2 e" using m0 pe by simp
  ultimately show ?thesis by blast
qed

lemma float_of_int_exact: "0 \<le> n \<Longrightarrow> n < 2 ^ 53 \<Longrightarrow> float_of_int n = Inr (of_int n)"
  by (simp add: float_of_int_def round_double_int)

lemma py_share_zero_extent:
  assumes "0 \<le> a" and "a \<le> b" and "0 < b"
  shows "py_share a b 0 = Inr 0"
proof (cases "a = 0")
  case True
  then show ?thesis using assms(3)
    by (simp add: py_share_def true_div_def float_of_int_def round_double_def)
next
  case False
  have "0 < (of_int a / of_int b :: rat)" "(of_int a / of_int b :: rat) \<le> 1"
    using False assms by simp_all
  from round_double_le_one[OF this] obtain q where "round_double (of_int a / of_int b) = Finite q"
    by blast
  then show ?thesis using assms(3)
    by (simp add: py_share_def true_div_def float_of_int_def round_double_def)
qed

lemma py_share_zero_weight:
  assumes "0 < b" and "0 \<le> e" and "e < 2 ^ 53"
  shows "py_share 0 b e = Inr 0"
  using assms by (simp add: py_share_def true_div_def float_of_int_exact round_double_def)

lemma two_roundings_extent:
  assumes "0 \<le> e" and "e < 2 ^ 52"
  shows "two_roundings * of_int e < of_int e + 1"
proof -
  have "e \<le> 2 ^ 52 - 1" using assms(2) by simp
  then have "(of_int e :: rat) \<le> of_int (2 ^ 52 - 1)" by (simp only: of_int_le_iff)
  then have e: "(of_int e :: rat) \<le> 2 ^ 52 - 1" by simp
  have e0: "(0::rat) \<le> of_int e" using assms(1) by simp
  have "two_roundings * of_int e = of_int e + (two_roundings - 1) * of_int e"
    by (simp add: algebra_simps)
  moreover have "(two_roundings - 1) * of_int e \<le> (two_roundings - 1) * (2 ^ 52 - 1)"
    using e by (intro mult_left_mono) (simp_all add: two_roundings_def)
  moreover have "(two_roundings - 1) * (2 ^ 52 - 1) < 1"
    by (simp add: two_roundings_def)
  ultimately show ?thesis by linarith
qed

lemma py_share_normal:
  assumes a: "1 \<le> a" "a \<le> b" and e: "1 \<le> e" "e < 2 ^ 52"
    and n: "pow2 (- 1022) \<le> of_int a / of_int b"
  shows "\<exists>s. py_share a b e = Inr s \<and> 0 \<le> s \<and>
             of_int (s * b) \<le> two_roundings * of_int (a * e)"
proof -
  define A B E :: rat where "A = of_int a" and "B = of_int b" and "E = of_int e"
  define u :: rat where "u = 1 / 2 ^ 53"
  have A1: "1 \<le> A" and AB: "A \<le> B" and E1: "1 \<le> E"
    using a e by (simp_all add: A_def B_def E_def)
  have Bpos: "0 < B" using A1 AB by simp
  have b1: "1 \<le> b" using a by simp
  have E52: "E \<le> 2 ^ 52"
  proof -
    have "e \<le> 2 ^ 52" using e(2) by simp
    then have "(of_int e :: rat) \<le> of_int (2 ^ 52)" by (simp only: of_int_le_iff)
    then show ?thesis by (simp add: E_def)
  qed
  define y where "y = A / B"
  have y1: "y \<le> 1" using AB Bpos by (simp add: y_def)
  have ypos: "0 < y" using A1 Bpos by (simp add: y_def)
  have yn: "pow2 (- 1022) \<le> y" using n by (simp add: y_def A_def B_def)
  have "(1::rat) < 2 ^ 1023" by (rule one_less_power) simp_all
  then have yh: "y < pow2 1023" using y1 by (simp add: pow2_numeral)
  from round_double_normal[OF yn yh] obtain q where
    q: "round_double y = Finite q" "q \<le> y * (1 + u)"
    by (auto simp: u_def)
  from round_double_ge[OF _ yn q(1)] have qn: "pow2 (- 1022) \<le> q" by simp
  have qpos: "0 < q" using qn pow2_pos[of "- 1022"] by linarith
  have td: "true_div a b = Inr q" using q(1) b1 by (simp add: true_div_def y_def A_def B_def)
  have "e < 2 ^ 53" using e(2) by simp
  then have fe: "float_of_int e = Inr E" using e by (simp add: float_of_int_exact E_def)
  define z where "z = q * E"
  have u_lt: "0 < u" "u < 1 / 2" by (simp_all add: u_def)
  have zn: "pow2 (- 1022) \<le> z"
  proof -
    have "pow2 (- 1022) * 1 \<le> q * E" using qn E1 qpos by (intro mult_mono) simp_all
    then show ?thesis by (simp add: z_def)
  qed
  have qhi: "q \<le> 2"
  proof -
    have "y * (1 + u) \<le> 1 * 2" using y1 u_lt ypos by (intro mult_mono) simp_all
    with q(2) show ?thesis by simp
  qed
  have "z \<le> 2 * 2 ^ 52" unfolding z_def using qhi E52 qpos E1 by (intro mult_mono) simp_all
  also have "\<dots> < (2::rat) ^ 1023"
  proof -
    have "(2::rat) ^ 53 < 2 ^ 1023" by (rule power_strict_increasing) simp_all
    then show ?thesis by simp
  qed
  finally have zh: "z < pow2 1023" by (simp add: pow2_numeral)
  from round_double_normal[OF zn zh] obtain p where
    p: "round_double z = Finite p" "z * (1 - u) \<le> p" "p \<le> z * (1 + u)"
    by (auto simp: u_def)
  have zpos: "0 < z" using zn pow2_pos[of "- 1022"] by linarith
  have ppos: "0 \<le> p"
  proof -
    have "0 \<le> z * (1 - u)" using zpos u_lt by simp
    with p(2) show ?thesis by simp
  qed
  have ps: "py_share a b e = Inr \<lfloor>p\<rfloor>"
    using td fe p(1) ppos by (simp add: py_share_def z_def)
  have s0: "0 \<le> \<lfloor>p\<rfloor>" using ppos by simp
  have "of_int (\<lfloor>p\<rfloor> * b) = of_int \<lfloor>p\<rfloor> * B" by (simp add: B_def)
  also have "\<dots> \<le> p * B" using Bpos by (intro mult_right_mono) simp_all
  also have "\<dots> \<le> (z * (1 + u)) * B" using p(3) Bpos by (intro mult_right_mono) simp_all
  also have "\<dots> \<le> ((y * (1 + u) * E) * (1 + u)) * B"
    unfolding z_def using q(2) E1 u_lt Bpos
    by (intro mult_right_mono) simp_all
  also have "\<dots> = two_roundings * (A * E)"
    using Bpos by (simp add: y_def two_roundings_def u_def)
  finally have "of_int (\<lfloor>p\<rfloor> * b) \<le> two_roundings * of_int (a * e)"
    by (simp add: A_def E_def)
  with ps s0 show ?thesis by blast
qed

lemma py_share_tiny:
  assumes a: "1 \<le> a" "a \<le> b" and e: "1 \<le> e" "e < 2 ^ 52"
    and n: "of_int a / of_int b < pow2 (- 1022)"
  shows "py_share a b e = Inr 0"
proof -
  define y :: rat where "y = of_int a / of_int b"
  have b1: "1 \<le> b" using a by simp
  have ypos: "0 < y" using a by (simp add: y_def)
  from round_double_le_pow2[OF ypos, of "- 1022"] n obtain q where
    q: "round_double y = Finite q" "0 \<le> q" "q \<le> pow2 (- 1022)"
    by (auto simp: y_def)
  have td: "true_div a b = Inr q" using q(1) b1 by (simp add: true_div_def y_def)
  have "e < 2 ^ 53" using e(2) by simp
  then have fe: "float_of_int e = Inr (of_int e)" using e by (simp add: float_of_int_exact)
  define z where "z = q * of_int e"
  have z0: "0 \<le> z" using q(2) e(1) by (simp add: z_def)
  have E52: "(of_int e :: rat) \<le> 2 ^ 52"
  proof -
    have "e \<le> 2 ^ 52" using e(2) by simp
    then have "(of_int e :: rat) \<le> of_int (2 ^ 52)" by (simp only: of_int_le_iff)
    then show ?thesis by simp
  qed
  have "z \<le> pow2 (- 1022) * 2 ^ 52"
    unfolding z_def using q(2,3) E52 e(1) by (intro mult_mono) simp_all
  also have "\<dots> = pow2 (- 1022) * pow2 52" by (simp only: pow2_numeral)
  also have "\<dots> = pow2 (- 1022 + 52)" by (simp only: pow2_add)
  finally have zle: "z \<le> pow2 (- 970)" by simp
  have "\<exists>p. round_double z = Finite p \<and> 0 \<le> p \<and> p < 1"
  proof (cases "z = 0")
    case True
    then show ?thesis by (simp add: round_double_def)
  next
    case False
    with z0 have "0 < z" by simp
    from round_double_le_pow2[OF this zle] obtain p where
      p: "round_double z = Finite p" "0 \<le> p" "p \<le> pow2 (- 970)" by auto
    have "pow2 (- 970) < pow2 0" using pow2_neg_nat[of 970] by (simp add: pow2_0)
    with p show ?thesis by (auto simp: pow2_0)
  qed
  then obtain p where p: "round_double z = Finite p" "0 \<le> p" "p < 1" by blast
  then have "\<lfloor>p\<rfloor> = 0" by (simp add: floor_eq_iff)
  then show ?thesis using td fe p(1,2) by (simp add: py_share_def z_def)
qed

lemma py_share_sound:
  assumes "0 \<le> a" and "a \<le> b" and "0 < b" and "0 \<le> e" and "e < 2 ^ 52"
  shows "\<exists>s. py_share a b e = Inr s \<and> 0 \<le> s \<and>
             of_int (s * b) \<le> two_roundings * of_int (a * e)"
proof (cases "e = 0")
  case True
  then show ?thesis using py_share_zero_extent[OF assms(1,2,3)] by simp
next
  case False
  with assms(4) have e1: "1 \<le> e" by simp
  show ?thesis
  proof (cases "a = 0")
    case True
    have "e < 2 ^ 53" using assms(5) by simp
    from py_share_zero_weight[OF assms(3,4) this] True show ?thesis by simp
  next
    case F: False
    with assms(1) have a1: "1 \<le> a" by simp
    show ?thesis
    proof (cases "pow2 (- 1022) \<le> of_int a / of_int b")
      case True
      from py_share_normal[OF a1 assms(2) e1 assms(5) True] show ?thesis .
    next
      case False
      then have "of_int a / of_int b < pow2 (- 1022)" by simp
      from py_share_tiny[OF a1 assms(2) e1 assms(5) this]
      have "py_share a b e = Inr 0" .
      moreover have "(0::rat) \<le> two_roundings * of_int (a * e)"
        using a1 e1 by (simp add: two_roundings_def)
      ultimately show ?thesis by simp
    qed
  qed
qed

section \<open>\<^verbatim>\<open>change_prop\<close>\<close>

text \<open>
  \<^verbatim>\<open>change_prop\<close> either raises out of the arithmetic and leaves the store as it was, or
  calls \<^verbatim>\<open>update_size\<close>, which adds one amount to the node and to each of its ancestors.
\<close>

lemma change_prop_path:
  assumes "path_to_root d h n = Some ns"
  shows "(\<exists>e. change_prop d h n p = Inl (e, h)) \<or>
     (\<exists>h' delta. change_prop d h n p = Inr h' \<and> length h' = length h \<and>
        (\<forall>m<length h. h' ! m = (if m \<in> set ns
             then (h ! m)\<lparr>data_size := data_size (h ! m) + delta\<rparr> else h ! m)))"
proof -
  define r where "r = (if float_ge_zero p
            then ceil_times (data_size (h ! n)) p
            else (case ceil_times (data_size (h ! n)) (float_abs p) of
                    Inl e \<Rightarrow> Inl e
                  | Inr c \<Rightarrow> Inr (c * - 1)))"
  have cp: "change_prop d h n p =
      (case r of Inl e \<Rightarrow> Inl (e, h)
       | Inr c \<Rightarrow> update_size d h n
           (if data_size (h ! n) + c < 1 then data_size (h ! n) - 1 else c))"
    by (simp only: change_prop_def r_def)
  show ?thesis
  proof (cases r)
    case (Inl e)
    then have "change_prop d h n p = Inl (e, h)" using cp by simp
    then show ?thesis by blast
  next
    case (Inr c)
    then have "change_prop d h n p = update_size d h n
        (if data_size (h ! n) + c < 1 then data_size (h ! n) - 1 else c)"
      using cp by simp
    with update_size_path[OF assms,
        of "if data_size (h ! n) + c < 1 then data_size (h ! n) - 1 else c"]
    show ?thesis by auto
  qed
qed

lemma change_prop_raises:
  "float_ge_zero p \<Longrightarrow> ceil_times (data_size (h ! n)) p = Inl e \<Longrightarrow>
   change_prop d h n p = Inl (e, h)"
  by (simp add: change_prop_def)

lemma change_prop_returns:
  assumes "path_to_root d h n = Some ns"
    and "float_of_int (data_size (h ! n)) = Inr x"
    and "float_mul x (float_abs p) = Finite v"
    and "c = (if float_ge_zero p then \<lceil>v\<rceil> else - \<lceil>v\<rceil>)"
    and "delta = (if data_size (h ! n) + c < 1 then data_size (h ! n) - 1 else c)"
  shows "\<exists>h'. change_prop d h n p = Inr h' \<and> length h' = length h \<and>
     (\<forall>m<length h. h' ! m = (if m \<in> set ns
          then (h ! m)\<lparr>data_size := data_size (h ! m) + delta\<rparr> else h ! m))"
proof -
  have "change_prop d h n p = update_size d h n delta"
  proof (cases "float_ge_zero p")
    case True
    with assms(3) float_abs_ge_zero[of p] have "float_mul x p = Finite v" by simp
    with True assms(2) show ?thesis
      by (simp add: change_prop_def ceil_times_def assms(4,5))
  next
    case False
    with assms(2,3) show ?thesis
      by (simp add: change_prop_def ceil_times_def assms(4,5))
  qed
  with update_size_path[OF assms(1), of delta] show ?thesis by simp
qed

text \<open>
  C9, as amended: on a node of weight at least 1, when the weight converts to the
  \<^verbatim>\<open>float\<close> \<open>x\<close>, the \<^verbatim>\<open>float\<close> product of \<open>x\<close> and \<open>|p|\<close> is the finite \<open>v\<close>, and the clamp does
  not trigger, \<^verbatim>\<open>change_prop\<close> returns and has added \<open>\<lceil>v\<rceil>\<close>, with the sign of \<open>p\<close>, to the
  weight of the node and of each of its ancestors, and has changed nothing else. The
  witness is the scenario of the leaf of weight 100 that receives 0.25: it ends at 125,
  and so does its parent.
\<close>

theorem change_prop_unclamped:
  assumes "path_to_root d h n = Some ns"
    and "1 \<le> data_size (h ! n)"
    and "float_of_int (data_size (h ! n)) = Inr x"
    and "float_mul x (float_abs p) = Finite v"
    and "delta = (if float_ge_zero p then \<lceil>v\<rceil> else - \<lceil>v\<rceil>)"
    and "1 \<le> data_size (h ! n) + delta"
  shows "\<exists>h'. change_prop d h n p = Inr h' \<and> length h' = length h \<and>
     (\<forall>m<length h. h' ! m = (if m \<in> set ns
          then (h ! m)\<lparr>data_size := data_size (h ! m) + delta\<rparr> else h ! m))"
proof (rule change_prop_returns[OF assms(1,3,4,5)])
  show "delta = (if data_size (h ! n) + delta < 1 then data_size (h ! n) - 1 else delta)"
    using assms(6) by simp
qed

theorem change_prop_unclamped_witness:
  "change_prop 2 [leaf_obj ''a'' 100 (Some 1), inner_obj ''r'' [0] 100 None] 0 (Finite (1 / 4))
     = Inr [leaf_obj ''a'' 125 (Some 1), inner_obj ''r'' [0] 125 None]"
proof -
  let ?h = "[leaf_obj ''a'' 100 (Some 1), inner_obj ''r'' [0] 100 None]"
  have p: "path_to_root 2 ?h 0 = Some [0, 1]"
    by (simp add: leaf_obj_def inner_obj_def numeral_2_eq_2)
  have w: "1 \<le> data_size (?h ! 0)" by (simp add: leaf_obj_def)
  have x: "float_of_int (data_size (?h ! 0)) = Inr 100"
    by (simp add: leaf_obj_def eval_float)
  have v: "float_mul 100 (float_abs (Finite (1 / 4))) = Finite 25"
    by (simp add: eval_float)
  have "\<exists>h'. change_prop 2 ?h 0 (Finite (1 / 4)) = Inr h' \<and> length h' = length ?h \<and>
     (\<forall>m<length ?h. h' ! m = (if m \<in> set [0, 1]
          then (?h ! m)\<lparr>data_size := data_size (?h ! m) + 25\<rparr> else ?h ! m))"
    by (rule change_prop_unclamped[OF p w x v]) (simp_all add: leaf_obj_def)
  then obtain h' where h': "change_prop 2 ?h 0 (Finite (1 / 4)) = Inr h'" "length h' = 2"
    "\<forall>m<2. h' ! m = (?h ! m)\<lparr>data_size := data_size (?h ! m) + 25\<rparr>"
    by auto
  from h'(3) have "h' ! 0 = leaf_obj ''a'' 125 (Some 1)" "h' ! 1 = inner_obj ''r'' [0] 125 None"
    by (simp_all add: leaf_obj_def inner_obj_def)
  with h'(2) have "h' = [leaf_obj ''a'' 125 (Some 1), inner_obj ''r'' [0] 125 None]"
    by (auto simp: list_eq_iff_nth_eq less_Suc_eq numeral_2_eq_2)
  with h'(1) show ?thesis by simp
qed

text \<open>
  C9 as stated fails, whichever number the proportion stands for. The \<^verbatim>\<open>float\<close> \<^verbatim>\<open>0.01\<close> is
  the number \<open>5764607523034235 / 2\<^sup>5\<^sup>9\<close>, a little above one hundredth: 100 times it is above
  1 and its ceiling is 2, but the \<^verbatim>\<open>float\<close> product rounds to 1 and the leaf of weight 100
  gains 1. The \<^verbatim>\<open>float\<close> \<^verbatim>\<open>0.07\<close> is \<open>1261007895663739 / 2\<^sup>5\<^sup>4\<close>: the \<^verbatim>\<open>float\<close> product with 100
  is above 7 and the leaf gains 8, where the ceiling of 100 times seven hundredths is 7.
\<close>

theorem change_prop_rounded_counterexample:
  "is_double (5764607523034235 / 576460752303423488) \<and>
   change_prop 2 [leaf_obj ''a'' 100 (Some 1), inner_obj ''r'' [0] 100 None] 0
       (Finite (5764607523034235 / 576460752303423488))
     = Inr [leaf_obj ''a'' 101 (Some 1), inner_obj ''r'' [0] 101 None] \<and>
   \<lceil>100 * \<bar>5764607523034235 / 576460752303423488 :: rat\<bar>\<rceil> = 2 \<and>
   is_double (1261007895663739 / 18014398509481984) \<and>
   change_prop 2 [leaf_obj ''a'' 100 (Some 1), inner_obj ''r'' [0] 100 None] 0
       (Finite (1261007895663739 / 18014398509481984))
     = Inr [leaf_obj ''a'' 108 (Some 1), inner_obj ''r'' [0] 108 None] \<and>
   \<lceil>100 * \<bar>7 / 100 :: rat\<bar>\<rceil> = 7"
proof -
  have c1: "ceil_times 100 (Finite (5764607523034235 / 576460752303423488)) = Inr 1"
    by (simp add: eval_float)
  have c2: "ceil_times 100 (Finite (1261007895663739 / 18014398509481984)) = Inr 8"
    by (simp add: eval_float)
  have d1: "is_double (5764607523034235 / 576460752303423488)"
    by (simp add: eval_float)
  have d2: "is_double (1261007895663739 / 18014398509481984)"
    by (simp add: eval_float)
  have e1: "\<lceil>100 * \<bar>5764607523034235 / 576460752303423488 :: rat\<bar>\<rceil> = 2"
    by (simp add: ceiling_numeral_div)
  have e2: "\<lceil>100 * \<bar>7 / 100 :: rat\<bar>\<rceil> = 7"
    by simp
  have r1: "change_prop 2 [leaf_obj ''a'' 100 (Some 1), inner_obj ''r'' [0] 100 None] 0
       (Finite (5764607523034235 / 576460752303423488))
     = Inr [leaf_obj ''a'' 101 (Some 1), inner_obj ''r'' [0] 101 None]"
    by (simp add: change_prop_def c1 leaf_obj_def inner_obj_def numeral_2_eq_2)
  have r2: "change_prop 2 [leaf_obj ''a'' 100 (Some 1), inner_obj ''r'' [0] 100 None] 0
       (Finite (1261007895663739 / 18014398509481984))
     = Inr [leaf_obj ''a'' 108 (Some 1), inner_obj ''r'' [0] 108 None]"
    by (simp add: change_prop_def c2 leaf_obj_def inner_obj_def numeral_2_eq_2)
  from d1 r1 e1 d2 r2 e2 show ?thesis by (intro conjI)
qed

text \<open>
  C10, as amended: on a node of weight at least 1, \<^verbatim>\<open>change_prop\<close> with a finite \<^verbatim>\<open>float\<close>
  above 0, when \<^verbatim>\<open>math.ceil(self.data_size * proportion)\<close> raises no \<^verbatim>\<open>OverflowError\<close>,
  returns and has added the same amount, at least 1, to the weight of the node and of each
  of its ancestors. The smallest positive \<^verbatim>\<open>float\<close> is \<open>2\<^sup>-\<^sup>1\<^sup>0\<^sup>7\<^sup>4\<close> and the weight, as a
  \<^verbatim>\<open>float\<close>, is at least 1, so the product does not round to 0.
\<close>

theorem change_prop_grows:
  assumes "path_to_root d h n = Some ns"
    and "1 \<le> data_size (h ! n)"
    and "0 < q"
    and "is_double q"
    and "ceil_times (data_size (h ! n)) (Finite q) \<noteq> Inl OverflowError"
  shows "\<exists>h' delta. change_prop d h n (Finite q) = Inr h' \<and> 1 \<le> delta \<and>
     (\<forall>m\<in>set ns. data_size (h' ! m) = data_size (h ! m) + delta)"
proof -
  obtain x where x: "float_of_int (data_size (h ! n)) = Inr x"
      "round_double (of_int (data_size (h ! n))) = Finite x"
    using assms(5) by (auto simp: ceil_times_def float_of_int_def split: pyfloat.splits)
  have "(1::rat) \<le> of_int (data_size (h ! n))" using assms(2) by simp
  from round_double_ge_one[OF this x(2)] have x1: "1 \<le> x" .
  obtain v where v: "round_double (x * q) = Finite v"
    using assms(5) round_double_not_nan[of "x * q"]
    by (cases "round_double (x * q)") (auto simp: ceil_times_def x(1))
  have "pow2 (- 1074) \<le> 1 * q" using is_double_pos[OF assms(4,3)] by simp
  also have "\<dots> \<le> x * q" using x1 assms(3) by (intro mult_right_mono) simp_all
  finally have "0 < v" using v by (rule round_double_pos)
  then have c: "1 \<le> \<lceil>v\<rceil>" by (smt (verit) ceiling_le_zero not_le)
  have fm: "float_mul x (float_abs (Finite q)) = Finite v"
    using v assms(3) by simp
  have "\<exists>h'. change_prop d h n (Finite q) = Inr h' \<and> length h' = length h \<and>
     (\<forall>m<length h. h' ! m = (if m \<in> set ns
          then (h ! m)\<lparr>data_size := data_size (h ! m) + \<lceil>v\<rceil>\<rparr> else h ! m))"
  proof (rule change_prop_returns[OF assms(1) x(1) fm])
    show "\<lceil>v\<rceil> = (if float_ge_zero (Finite q) then \<lceil>v\<rceil> else - \<lceil>v\<rceil>)"
      using assms(3) by simp
    show "\<lceil>v\<rceil> = (if data_size (h ! n) + \<lceil>v\<rceil> < 1 then data_size (h ! n) - 1 else \<lceil>v\<rceil>)"
    proof -
      have "\<not> data_size (h ! n) + \<lceil>v\<rceil> < 1" using assms(2) c by linarith
      then show ?thesis by (simp only: if_False)
    qed
  qed
  then obtain h' where
    h': "change_prop d h n (Finite q) = Inr h'" "length h' = length h"
      "\<forall>m<length h. h' ! m = (if m \<in> set ns
          then (h ! m)\<lparr>data_size := data_size (h ! m) + \<lceil>v\<rceil>\<rparr> else h ! m)"
    by auto
  have "\<forall>m\<in>set ns. data_size (h' ! m) = data_size (h ! m) + \<lceil>v\<rceil>"
    using h'(3) path_to_root_in_range[OF assms(1)] by auto
  with h'(1) c show ?thesis by blast
qed

theorem change_prop_grows_witness:
  "\<exists>h' delta. change_prop 2 [leaf_obj ''a'' 1 (Some 1), inner_obj ''r'' [0] 1 None] 0
        (Finite (1 / 1024)) = Inr h' \<and>
     1 \<le> delta \<and> data_size (h' ! 0) = 1 + delta \<and> data_size (h' ! 1) = 1 + delta"
proof -
  let ?h = "[leaf_obj ''a'' 1 (Some 1), inner_obj ''r'' [0] 1 None]"
  have p: "path_to_root 2 ?h 0 = Some [0, 1]"
    by (simp add: leaf_obj_def inner_obj_def numeral_2_eq_2)
  have w: "1 \<le> data_size (?h ! 0)" "(0::rat) < 1 / 1024"
    by (simp_all add: leaf_obj_def)
  have d: "is_double (1 / 1024)"
    by (simp add: eval_float)
  have c: "ceil_times (data_size (?h ! 0)) (Finite (1 / 1024)) \<noteq> Inl OverflowError"
    by (simp add: leaf_obj_def eval_float)
  from change_prop_grows[OF p w d c] show ?thesis
    by (simp add: leaf_obj_def inner_obj_def)
qed

text \<open>
  C10 as stated fails where the arithmetic overflows: \<^verbatim>\<open>1.7e308\<close> is the \<^verbatim>\<open>float\<close>
  \<open>8517715530038134 \<times> 2\<^sup>9\<^sup>7\<^sup>1\<close>, ten times it is beyond the largest \<^verbatim>\<open>float\<close>, the product is
  \<^verbatim>\<open>inf\<close> and \<^verbatim>\<open>math.ceil\<close> raises \<^verbatim>\<open>OverflowError\<close>; and the weight \<open>2\<^sup>1\<^sup>0\<^sup>2\<^sup>4\<close> is too large to be
  converted to a \<^verbatim>\<open>float\<close>, so that the product with \<^verbatim>\<open>0.5\<close> already raises. In both cases
  the weight of the leaf is what it was.
\<close>

theorem change_prop_overflow_counterexample:
  "is_double (8517715530038134 * 2 ^ 971) \<and>
   change_prop 1 [leaf_obj ''a'' 10 None] 0 (Finite (8517715530038134 * 2 ^ 971))
     = Inl (OverflowError, [leaf_obj ''a'' 10 None]) \<and>
   is_double (1 / 2) \<and>
   change_prop 1 [leaf_obj ''a'' (2 ^ 1024) None] 0 (Finite (1 / 2))
     = Inl (OverflowError, [leaf_obj ''a'' (2 ^ 1024) None])"
proof -
  have d1: "is_double (8517715530038134 * 2 ^ 971)"
    using is_double_normal[of 8517715530038134 971] by (simp add: pow2_numeral)
  have "(2::rat) ^ 1024 = 2 ^ 53 * 2 ^ 971" by (simp add: power_add[symmetric])
  moreover have "(2::rat) ^ 53 * 2 ^ 971 \<le> (10 * 8517715530038134) * 2 ^ 971"
    by (intro mult_right_mono) simp_all
  ultimately have "pow2 1024 \<le> 10 * (8517715530038134 * 2 ^ 971)"
    by (simp add: pow2_numeral)
  then have o1: "round_double (10 * (8517715530038134 * 2 ^ 971)) = PosInf"
    by (rule round_double_overflow)
  have f10: "float_of_int 10 = Inr 10"
    using float_of_int_exact[of 10] by simp
  have w1: "data_size ([leaf_obj ''a'' 10 None] ! 0) = 10"
    by (simp add: leaf_obj_def)
  have c1: "ceil_times (data_size ([leaf_obj ''a'' 10 None] ! 0))
      (Finite (8517715530038134 * 2 ^ 971)) = Inl OverflowError"
    by (simp only: w1 ceil_times_def f10 sum.case float_mul.simps o1 math_ceil.simps)
  have r1: "change_prop 1 [leaf_obj ''a'' 10 None] 0 (Finite (8517715530038134 * 2 ^ 971))
     = Inl (OverflowError, [leaf_obj ''a'' 10 None])"
    by (rule change_prop_raises[OF _ c1]) simp
  have d2: "is_double (1 / 2)"
    by (simp add: eval_float)
  have "pow2 1024 \<le> of_int (2 ^ 1024)" by (simp add: pow2_numeral)
  then have "round_double (of_int (2 ^ 1024)) = PosInf" by (rule round_double_overflow)
  then have f2: "float_of_int (2 ^ 1024) = Inl OverflowError"
    by (simp only: float_of_int_def pyfloat.case)
  have w2: "data_size ([leaf_obj ''a'' (2 ^ 1024) None] ! 0) = 2 ^ 1024"
    by (simp add: leaf_obj_def)
  have c2: "ceil_times (data_size ([leaf_obj ''a'' (2 ^ 1024) None] ! 0)) (Finite (1 / 2))
      = Inl OverflowError"
    by (simp only: w2 ceil_times_def f2 sum.case)
  have r2: "change_prop 1 [leaf_obj ''a'' (2 ^ 1024) None] 0 (Finite (1 / 2))
     = Inl (OverflowError, [leaf_obj ''a'' (2 ^ 1024) None])"
    by (rule change_prop_raises[OF _ c2]) simp
  from d1 r1 d2 r2 show ?thesis by (intro conjI)
qed

text \<open>
  The clamp, in general: a shrink whose result would pass below 1 adds \<open>w - 1\<close> to the
  node of weight \<open>w\<close> and to each ancestor, and on a node of weight 0 every finite
  proportion takes 1 off the node and off each ancestor.
\<close>

lemma change_prop_clamped:
  assumes "path_to_root d h n = Some ns"
    and "float_of_int (data_size (h ! n)) = Inr x"
    and "float_mul x (float_abs p) = Finite v"
    and "\<not> float_ge_zero p"
    and "data_size (h ! n) - \<lceil>v\<rceil> < 1"
  shows "\<exists>h'. change_prop d h n p = Inr h' \<and>
     (\<forall>m\<in>set ns. data_size (h' ! m) = data_size (h ! m) + (data_size (h ! n) - 1))"
proof -
  have "\<exists>h'. change_prop d h n p = Inr h' \<and> length h' = length h \<and>
     (\<forall>m<length h. h' ! m = (if m \<in> set ns
          then (h ! m)\<lparr>data_size := data_size (h ! m) + (data_size (h ! n) - 1)\<rparr> else h ! m))"
    using assms(4,5) by (intro change_prop_returns[OF assms(1,2,3) refl]) simp
  then show ?thesis using path_to_root_in_range[OF assms(1)] by auto
qed

lemma change_prop_weight_zero:
  assumes "path_to_root d h n = Some ns"
    and "data_size (h ! n) = 0"
  shows "\<exists>h'. change_prop d h n (Finite q) = Inr h' \<and>
     (\<forall>m\<in>set ns. data_size (h' ! m) = data_size (h ! m) - 1)"
proof -
  have x: "float_of_int (data_size (h ! n)) = Inr 0"
    by (simp add: assms(2) float_of_int_def round_double_def)
  have v: "float_mul 0 (float_abs (Finite q)) = Finite 0"
    by (simp add: round_double_def)
  have "\<exists>h'. change_prop d h n (Finite q) = Inr h' \<and> length h' = length h \<and>
     (\<forall>m<length h. h' ! m = (if m \<in> set ns
          then (h ! m)\<lparr>data_size := data_size (h ! m) + (- 1)\<rparr> else h ! m))"
    using assms(2) by (intro change_prop_returns[OF assms(1) x v refl]) simp
  then show ?thesis using path_to_root_in_range[OF assms(1)] by auto
qed

text \<open>
  C6: on a leaf of weight 3, \<^verbatim>\<open>change_prop(-0.9)\<close> computes \<open>- \<lceil>2.7\<rceil> = - 3\<close>, finds
  \<open>3 - 3 < 1\<close> and replaces the change by \<^verbatim>\<open>self.data_size - 1\<close>, which is \<open>+ 2\<close>: the leaf
  ends at weight 5. The first proportion is nine tenths, the second the \<^verbatim>\<open>float\<close>
  \<^verbatim>\<open>-0.9\<close>, the double nearest to it.
\<close>

theorem change_prop_clamp_grows:
  "change_prop 1 [leaf_obj ''a'' 3 None] 0 (Finite (- 9 / 10)) = Inr [leaf_obj ''a'' 5 None] \<and>
   change_prop 1 [leaf_obj ''a'' 3 None] 0 (Finite (- 8106479329266893 / 9007199254740992))
     = Inr [leaf_obj ''a'' 5 None]"
proof -
  have c1: "ceil_times 3 (Finite (9 / 10)) = Inr 3"
    by (simp add: eval_float)
  have c2: "ceil_times 3 (Finite (8106479329266893 / 9007199254740992)) = Inr 3"
    by (simp add: eval_float)
  have "change_prop 1 [leaf_obj ''a'' 3 None] 0 (Finite (- 9 / 10)) = Inr [leaf_obj ''a'' 5 None]"
    by (simp add: change_prop_def c1 leaf_obj_def)
  moreover have "change_prop 1 [leaf_obj ''a'' 3 None] 0
      (Finite (- 8106479329266893 / 9007199254740992)) = Inr [leaf_obj ''a'' 5 None]"
    by (simp add: change_prop_def c2 leaf_obj_def)
  ultimately show ?thesis by (intro conjI)
qed

text \<open>
  C7: on a node of weight 0, \<^verbatim>\<open>change_prop\<close> computes the change 0, finds \<open>0 + 0 < 1\<close> and
  replaces it by \<open>0 - 1\<close>: the node, and each ancestor when it has a parent, ends one
  lighter, at \<open>- 1\<close> here. The proportion of the last line is the \<^verbatim>\<open>float\<close> \<^verbatim>\<open>0.01\<close>.
\<close>

theorem change_prop_zero_weight:
  "change_prop 1 [leaf_obj ''a'' 0 None] 0 (Finite (1 / 100)) = Inr [leaf_obj ''a'' (- 1) None] \<and>
   change_prop 2 [leaf_obj ''a'' 0 (Some 1), inner_obj ''r'' [0] 0 None] 0 (Finite (1 / 100)) =
     Inr [leaf_obj ''a'' (- 1) (Some 1), inner_obj ''r'' [0] (- 1) None] \<and>
   change_prop 1 [leaf_obj ''a'' 0 None] 0 (Finite (5764607523034235 / 576460752303423488))
     = Inr [leaf_obj ''a'' (- 1) None]"
proof -
  have c: "ceil_times 0 (Finite q) = Inr 0" for q
    by (simp add: ceil_times_def float_of_int_def round_double_def)
  show ?thesis
    by (simp add: change_prop_def c leaf_obj_def inner_obj_def numeral_2_eq_2)
qed

section \<open>\<^verbatim>\<open>delete\<close>\<close>

lemma delete_store:
  assumes "n < length h"
    and "parent_tree (h ! n) = Some p"
    and "path_to_root d h p = Some ancestors"
  shows "\<exists>h'. delete d h n = Inr h' \<and> length h' = length h \<and>
     (\<forall>m<length h. h' ! m =
        (if m = n then (h ! n)\<lparr>root_value := None, parent_tree := None, data_size := 0\<rparr>
         else if m \<in> set ancestors
           then (h ! m)\<lparr>data_size := data_size (h ! m) - data_size (h ! n)\<rparr>
         else h ! m))"
proof -
  let ?w = "data_size (h ! n)"
  let ?h1 = "h[n := (h ! n)\<lparr>root_value := None\<rparr>]"
  have nin: "n \<notin> set ancestors"
    by (rule path_to_root_parent_notin[OF assms])
  have "path_to_root d ?h1 p = path_to_root d h p"
    using assms(1) by (intro path_to_root_cong) (auto simp: nth_list_update)
  with assms(3) have "path_to_root d ?h1 p = Some ancestors" by simp
  from update_size_path[OF this, of "?w * - 1"] obtain h2 where
    h2: "update_size d ?h1 p (?w * - 1) = Inr h2" "length h2 = length h"
      "\<forall>m<length h. h2 ! m = (if m \<in> set ancestors
          then (?h1 ! m)\<lparr>data_size := data_size (?h1 ! m) + ?w * - 1\<rparr> else ?h1 ! m)"
    by auto
  let ?h3 = "h2[n := (h2 ! n)\<lparr>parent_tree := None\<rparr>]"
  let ?h4 = "?h3[n := (?h3 ! n)\<lparr>data_size := 0\<rparr>]"
  have d: "delete d h n = Inr ?h4"
    using assms(1,2) h2(1) by (simp add: delete_def Let_def)
  have "length ?h4 = length h" using h2(2) by simp
  moreover have "\<forall>m<length h. ?h4 ! m =
        (if m = n then (h ! n)\<lparr>root_value := None, parent_tree := None, data_size := 0\<rparr>
         else if m \<in> set ancestors
           then (h ! m)\<lparr>data_size := data_size (h ! m) - data_size (h ! n)\<rparr>
         else h ! m)"
    using h2(2,3) nin assms(1) by (auto simp: nth_list_update)
  ultimately show ?thesis using d by blast
qed

text \<open>
  C5: \<^verbatim>\<open>delete\<close> on a leaf (label present, no children) of weight \<open>w\<close> whose parent chain
  ends returns; afterwards the leaf has no label, weight 0 and no parent, each former
  ancestor weighs \<open>w\<close> less, and no children list has changed, so that the leaf is where it
  was in the children of its former parent. The objects that are neither the leaf nor an
  ancestor are as before.
\<close>

theorem delete_leaf:
  assumes "n < length h"
    and "root_value (h ! n) \<noteq> None"
    and "subtrees (h ! n) = []"
    and "parent_tree (h ! n) = Some p"
    and "path_to_root d h p = Some ancestors"
  shows "\<exists>h'. delete d h n = Inr h' \<and> length h' = length h \<and>
     root_value (h' ! n) = None \<and> data_size (h' ! n) = 0 \<and> parent_tree (h' ! n) = None \<and>
     (\<forall>a\<in>set ancestors. data_size (h' ! a) = data_size (h ! a) - data_size (h ! n)) \<and>
     (\<forall>m<length h. subtrees (h' ! m) = subtrees (h ! m)) \<and>
     (\<forall>m<length h. m \<noteq> n \<longrightarrow> m \<notin> set ancestors \<longrightarrow> h' ! m = h ! m)"
proof -
  from delete_store[OF assms(1,4,5)] obtain h' where
    h': "delete d h n = Inr h'" "length h' = length h"
      "\<forall>m<length h. h' ! m =
        (if m = n then (h ! n)\<lparr>root_value := None, parent_tree := None, data_size := 0\<rparr>
         else if m \<in> set ancestors
           then (h ! m)\<lparr>data_size := data_size (h ! m) - data_size (h ! n)\<rparr>
         else h ! m)"
    by blast
  have anc: "\<forall>a\<in>set ancestors. a < length h \<and> a \<noteq> n"
    using path_to_root_in_range[OF assms(5)] path_to_root_parent_notin[OF assms(1,4,5)]
    by auto
  have "root_value (h' ! n) = None" "data_size (h' ! n) = 0" "parent_tree (h' ! n) = None"
    using h'(3) assms(1) by simp_all
  moreover have "\<forall>a\<in>set ancestors. data_size (h' ! a) = data_size (h ! a) - data_size (h ! n)"
    using anc h'(3) by auto
  moreover have "\<forall>m<length h. subtrees (h' ! m) = subtrees (h ! m)"
    using h'(3) by auto
  moreover have "\<forall>m<length h. m \<noteq> n \<longrightarrow> m \<notin> set ancestors \<longrightarrow> h' ! m = h ! m"
    using h'(3) by auto
  ultimately show ?thesis using h'(1,2) by blast
qed

theorem delete_leaf_witness:
  "\<exists>h'. delete 2 [leaf_obj ''a'' 10 (Some 2), leaf_obj ''b'' 20 (Some 2),
                  inner_obj ''d'' [0, 1] 30 (Some 3), inner_obj ''r'' [2] 30 None] 1 = Inr h' \<and>
     root_value (h' ! 1) = None \<and> data_size (h' ! 1) = 0 \<and> parent_tree (h' ! 1) = None \<and>
     data_size (h' ! 2) = 10 \<and> data_size (h' ! 3) = 10 \<and>
     subtrees (h' ! 2) = [0, 1] \<and> h' ! 0 = leaf_obj ''a'' 10 (Some 2)"
proof -
  let ?h = "[leaf_obj ''a'' 10 (Some 2), leaf_obj ''b'' 20 (Some 2),
             inner_obj ''d'' [0, 1] 30 (Some 3), inner_obj ''r'' [2] 30 None]"
  have p: "path_to_root 2 ?h 2 = Some [2, 3]"
    by (simp add: leaf_obj_def inner_obj_def numeral_2_eq_2)
  have "1 < length ?h" "root_value (?h ! 1) \<noteq> None" "subtrees (?h ! 1) = []"
    "parent_tree (?h ! 1) = Some 2"
    by (simp_all add: leaf_obj_def)
  from delete_leaf[OF this p] show ?thesis
    by (auto simp: leaf_obj_def inner_obj_def)
qed

text \<open>
  C8, as amended: \<^verbatim>\<open>delete\<close> checks neither the label nor the children. On a node without
  parent it raises \<open>AttributeError\<close> when it has cleared the label of the node and nothing
  else: every weight, children list and parent reference is as before the call. On a node
  that has a parent, whose chain ends, it raises nothing.
\<close>

theorem delete_unchecked:
  "(n < length h \<longrightarrow> parent_tree (h ! n) = None \<longrightarrow>
      delete d h n = Inl (AttributeError, h[n := (h ! n)\<lparr>root_value := None\<rparr>])) \<and>
   (n < length h \<longrightarrow> parent_tree (h ! n) = Some p \<longrightarrow> path_to_root d h p = Some ns \<longrightarrow>
      (\<exists>h'. delete d h n = Inr h'))"
proof (intro conjI impI)
  assume "n < length h" "parent_tree (h ! n) = None"
  then show "delete d h n = Inl (AttributeError, h[n := (h ! n)\<lparr>root_value := None\<rparr>])"
    by (simp add: delete_def Let_def)
next
  let ?h1 = "h[n := (h ! n)\<lparr>root_value := None\<rparr>]"
  assume a: "n < length h" "parent_tree (h ! n) = Some p" "path_to_root d h p = Some ns"
  have "path_to_root d ?h1 p = path_to_root d h p"
    using a(1) by (intro path_to_root_cong) (auto simp: nth_list_update)
  with a(3) have "path_to_root d ?h1 p = Some ns" by simp
  from update_size_path[OF this, of "data_size (h ! n) * - 1"] a(1,2)
  show "\<exists>h'. delete d h n = Inr h'"
    by (auto simp: delete_def Let_def)
qed

theorem delete_unchecked_witness:
  "delete 1 [leaf_obj ''a'' 5 None] 0 =
     Inl (AttributeError, [(leaf_obj ''a'' 5 None)\<lparr>root_value := None\<rparr>]) \<and>
   (\<exists>h'. delete 1 [leaf_obj ''a'' 5 (Some 1), inner_obj ''s'' [0] 5 (Some 2),
                   inner_obj ''r'' [1] 5 None] 1 = Inr h')"
proof -
  let ?h = "[leaf_obj ''a'' 5 (Some 1), inner_obj ''s'' [0] 5 (Some 2),
             inner_obj ''r'' [1] 5 None]"
  have 1: "0 < length [leaf_obj ''a'' 5 None]" "parent_tree ([leaf_obj ''a'' 5 None] ! 0) = None"
    by (simp_all add: leaf_obj_def)
  have 2: "1 < length ?h" "parent_tree (?h ! 1) = Some 2" "path_to_root 1 ?h 2 = Some [2]"
    by (simp_all add: leaf_obj_def inner_obj_def)
  have a: "delete 1 [leaf_obj ''a'' 5 None] 0 =
      Inl (AttributeError, [leaf_obj ''a'' 5 None][0 := ([leaf_obj ''a'' 5 None] ! 0)\<lparr>root_value := None\<rparr>])"
    using delete_unchecked[where n = 0 and h = "[leaf_obj ''a'' 5 None]" and d = 1] 1 by blast
  have b: "\<exists>h'. delete 1 ?h 1 = Inr h'"
    using delete_unchecked[where n = 1 and h = ?h and d = 1 and p = 2 and ns = "[2]"] 2 by blast
  from a b show ?thesis by simp
qed

text \<open>
  C8 as stated fails: \<^verbatim>\<open>delete\<close> on the inner node \<open>s\<close>, which has a child, signals no
  error; it clears the label of \<open>s\<close>, detaches it and takes its weight off the root.
\<close>

theorem delete_inner_node_counterexample:
  "delete 1 [leaf_obj ''a'' 5 (Some 1), inner_obj ''s'' [0] 5 (Some 2),
             inner_obj ''r'' [1] 5 None] 1 =
     Inr [leaf_obj ''a'' 5 (Some 1),
          \<lparr>root_value = None, subtrees = [0], parent_tree = None, data_size = 0,
           colour = (0, 0, 0)\<rparr>,
          inner_obj ''r'' [1] 0 None]"
  by (simp add: delete_def leaf_obj_def inner_obj_def Let_def)

section \<open>\<^verbatim>\<open>__init__\<close>\<close>

text \<open>
  C4: the constructor starts from the explicit \<^verbatim>\<open>data_size\<close> and adds the weights of the
  subtrees to it. With one subtree of weight 5 and an explicit 3 the new node weighs 8,
  not 5; the back-reference of the subtree is set.
\<close>

theorem init_adds_explicit_size:
  "init [leaf_obj ''a'' 5 None] (Some ''r'') [0] 3 (1, 2, 3) =
     ([leaf_obj ''a'' 5 (Some 1),
       \<lparr>root_value = Some ''r'', subtrees = [0], parent_tree = None, data_size = 8,
        colour = (1, 2, 3)\<rparr>], 1)"
  by (simp add: init_def adopt_def leaf_obj_def)

section \<open>Weight conservation\<close>

lemma mutate_keeps_well_formed:
  assumes wl: "well_linked d h"
    and wc: "weights_conserved h"
    and leaf: "is_leaf h (target c)"
  shows "well_linked d (store_after (mutate d h c)) \<and>
         weights_conserved (store_after (mutate d h c))"
proof (cases c)
  case (Change_prop n p)
  with leaf have leaf: "is_leaf h n" by simp
  then have n: "n < length h" by (simp add: is_leaf_def)
  with wl obtain ns where ns: "path_to_root d h n = Some ns"
    by (auto simp: well_linked_def)
  from change_prop_path[OF ns, of p] show ?thesis
  proof
    assume "\<exists>e. change_prop d h n p = Inl (e, h)"
    then show ?thesis using wl wc Change_prop by auto
  next
    assume "\<exists>h' delta. change_prop d h n p = Inr h' \<and> length h' = length h \<and>
        (\<forall>m<length h. h' ! m = (if m \<in> set ns
             then (h ! m)\<lparr>data_size := data_size (h ! m) + delta\<rparr> else h ! m))"
    then obtain h' delta where
      h': "change_prop d h n p = Inr h'" "length h' = length h"
        "\<forall>m<length h. h' ! m = (if m \<in> set ns
            then (h ! m)\<lparr>data_size := data_size (h ! m) + delta\<rparr> else h ! m)"
      by blast
    have "well_linked d h'"
      using h'(2,3) by (intro well_linked_cut[OF wl]) auto
    moreover have "weights_conserved h'"
      using h'(2,3) by (intro conserved_bump[OF wl wc leaf ns, where delta = delta]) auto
    ultimately show ?thesis using h'(1) Change_prop by simp
  qed
next
  case (Delete n)
  with leaf have leaf: "is_leaf h n" by simp
  then have n: "n < length h" and nosub: "subtrees (h ! n) = []" by (simp_all add: is_leaf_def)
  show ?thesis
  proof (cases "parent_tree (h ! n)")
    case None
    let ?h' = "h[n := (h ! n)\<lparr>root_value := None\<rparr>]"
    from n obtain ns where ns: "path_to_root d h n = Some ns"
      using wl by (auto simp: well_linked_def)
    have d: "delete d h n = Inl (AttributeError, ?h')"
      using None n by (simp add: delete_def Let_def)
    have "well_linked d ?h'"
      using n nosub by (intro well_linked_cut[OF wl]) (auto simp: nth_list_update)
    moreover have "weights_conserved ?h'"
      using n by (intro conserved_bump[OF wl wc leaf ns, where delta = 0])
        (auto simp: nth_list_update)
    ultimately show ?thesis using d Delete by simp
  next
    case (Some p)
    from n obtain ns where ns: "path_to_root d h n = Some ns"
      using wl by (auto simp: well_linked_def)
    from well_linked_parent_in_range[OF wl n Some] have p: "p < length h" .
    with wl obtain anc where anc: "path_to_root d h p = Some anc"
      by (auto simp: well_linked_def)
    have full: "path_to_root (Suc d) h n = Some (n # anc)"
      using n Some anc by simp
    from delete_store[OF n Some anc] obtain h' where
      h': "delete d h n = Inr h'" "length h' = length h"
        "\<forall>m<length h. h' ! m =
          (if m = n then (h ! n)\<lparr>root_value := None, parent_tree := None, data_size := 0\<rparr>
           else if m \<in> set anc
             then (h ! m)\<lparr>data_size := data_size (h ! m) - data_size (h ! n)\<rparr>
           else h ! m)"
      by blast
    have "well_linked d h'"
      using h'(2,3) nosub by (intro well_linked_cut[OF wl]) auto
    moreover have "weights_conserved h'"
      using h'(2,3)
      by (intro conserved_bump[OF wl wc leaf full, where delta = "- data_size (h ! n)"]) auto
    ultimately show ?thesis using h'(1) Delete by simp
  qed
qed

lemma run_keeps_well_formed:
  "well_linked d h \<Longrightarrow> weights_conserved h \<Longrightarrow> on_leaves d h cs \<Longrightarrow>
   well_linked d (run d h cs) \<and> weights_conserved (run d h cs)"
proof (induction cs arbitrary: h)
  case Nil
  then show ?case by simp
next
  case (Cons c cs)
  from Cons.prems(3) have l: "is_leaf h (target c)"
    and r: "on_leaves d (store_after (mutate d h c)) cs" by simp_all
  from mutate_keeps_well_formed[OF Cons.prems(1,2) l] Cons.IH r show ?case by simp
qed

lemma on_leaves_take:
  "on_leaves d h cs \<Longrightarrow> on_leaves d h (take k cs)"
proof (induction cs arbitrary: h k)
  case Nil
  then show ?case by simp
next
  case (Cons c cs)
  then show ?case by (cases k) simp_all
qed

text \<open>
  Calls on leaves that have their label keep the weights conserved: start from a
  well-formed store (links as \<open>well_linked\<close> says, weights conserved) and make any
  sequence of \<^verbatim>\<open>delete\<close> and \<^verbatim>\<open>change_prop\<close> calls, each on an object that has a label
  and no subtrees when the call is made. After each call, whether it returned or raised,
  every object with at least one subtree weighs the sum of the weights of its subtrees,
  the emptied ones included.
\<close>

lemma weights_conserved_on_leaves:
  assumes "well_linked d h"
    and "weights_conserved h"
    and "on_leaves d h cs"
  shows "\<forall>k\<le>length cs. weights_conserved (run d h (take k cs))"
  using run_keeps_well_formed[OF assms(1,2) on_leaves_take[OF assms(3)]] by blast

text \<open>
  C3 fails when a leaf that \<^verbatim>\<open>delete\<close> has emptied receives \<^verbatim>\<open>change_prop\<close>: the emptied
  leaf stays in the list of its former parent, and nothing in \<^verbatim>\<open>change_prop\<close> tells it from
  another object. In the tree of the scenarios, \<^verbatim>\<open>b.delete()\<close> leaves \<open>b\<close> at weight 0 and
  the root at 40; \<^verbatim>\<open>b.change_prop(0.01)\<close> then computes the change 0, replaces it by
  \<open>0 - 1\<close> and takes 1 off \<open>b\<close> alone, which no longer has a parent. The root weighs 40
  and its subtrees weigh \<open>10 + (- 1) + 30 = 39\<close>.
\<close>

theorem weight_conservation_broken:
  "run 2 scenario_tree [Delete 1, Change_prop 1 (Finite (5764607523034235 / 576460752303423488))]
     = [leaf_obj ''a'' 10 (Some 3),
        \<lparr>root_value = None, subtrees = [], parent_tree = None, data_size = - 1,
           colour = (0, 0, 0)\<rparr>,
        leaf_obj ''c'' 30 (Some 3),
        inner_obj ''root'' [0, 1, 2] 40 None] \<and>
   (\<Sum>c\<leftarrow>[0, 1, 2].
      data_size (run 2 scenario_tree
        [Delete 1, Change_prop 1 (Finite (5764607523034235 / 576460752303423488))] ! c)) = 39"
proof -
  have c: "ceil_times 0 (Finite q) = Inr 0" for q
    by (simp add: ceil_times_def float_of_int_def round_double_def)
  have r: "run 2 scenario_tree
      [Delete 1, Change_prop 1 (Finite (5764607523034235 / 576460752303423488))]
     = [leaf_obj ''a'' 10 (Some 3),
        \<lparr>root_value = None, subtrees = [], parent_tree = None, data_size = - 1,
           colour = (0, 0, 0)\<rparr>,
        leaf_obj ''c'' 30 (Some 3),
        inner_obj ''root'' [0, 1, 2] 40 None]"
    by (simp add: scenario_tree_def leaf_obj_def inner_obj_def delete_def change_prop_def c
        numeral_2_eq_2 Let_def)
  show ?thesis
    unfolding r by (simp add: leaf_obj_def)
qed

text \<open>
  The tree of the scenarios is well-formed, the first call is made on a leaf, and the
  store that the two calls leave does not conserve the weights.
\<close>

lemma scenario_tree_well_formed:
  "well_linked 2 scenario_tree \<and> weights_conserved scenario_tree \<and> is_leaf scenario_tree 1"
proof -
  have "well_linked 2 scenario_tree"
    by (simp add: well_linked_def scenario_tree_def leaf_obj_def inner_obj_def
        less_Suc_eq numeral_2_eq_2 all_conj_distrib)
  moreover have "weights_conserved scenario_tree"
    by (simp add: weights_conserved_def scenario_tree_def leaf_obj_def inner_obj_def
        less_Suc_eq)
  moreover have "is_leaf scenario_tree 1"
    by (simp add: is_leaf_def scenario_tree_def leaf_obj_def)
  ultimately show ?thesis by (intro conjI)
qed

lemma emptied_leaf_breaks_conservation:
  "\<not> weights_conserved
     [leaf_obj ''a'' 10 (Some 3),
      \<lparr>root_value = None, subtrees = [], parent_tree = None, data_size = - 1,
         colour = (0, 0, 0)\<rparr>,
      leaf_obj ''c'' 30 (Some 3),
      inner_obj ''root'' [0, 1, 2] 40 None]"
  by (auto simp: weights_conserved_def leaf_obj_def inner_obj_def intro!: exI[of _ 3])

section \<open>\<^verbatim>\<open>leaf_at\<close> against \<^verbatim>\<open>generate_treemap\<close>\<close>


lemma drop_last_append:
  "ys \<noteq> [] \<Longrightarrow> drop_last (length ys) (xs @ ys) = xs"
  by (simp add: drop_last_def)




lemma sum_list_pos_ex:
  "0 < (\<Sum>x\<leftarrow>xs. f x) \<Longrightarrow> \<exists>x\<in>set xs. (0::int) < f x"
proof (rule ccontr)
  assume pos: "0 < (\<Sum>x\<leftarrow>xs. f x)" and "\<not> (\<exists>x\<in>set xs. 0 < f x)"
  then have "\<And>x. x \<in> set (map f xs) \<Longrightarrow> x \<le> 0" by auto
  then have "sum_list (map f xs) \<le> 0" by (rule sum_list_nonpos)
  with pos show False by simp
qed

lemma leaves_positive:
  "tree_wf d h n \<Longrightarrow> (leaves d h n \<noteq> []) = (0 < data_size (h ! n))"
proof (induction d arbitrary: n)
  case 0
  then show ?case by simp
next
  case (Suc d)
  show ?case
  proof (cases "data_size (h ! n) = 0 \<or> subtrees (h ! n) = []")
    case True
    with Suc.prems show ?thesis by auto
  next
    case False
    with Suc.prems have "0 < (\<Sum>c\<leftarrow>subtrees (h ! n). data_size (h ! c))" by auto
    from sum_list_pos_ex[OF this] obtain c where
      c: "c \<in> set (subtrees (h ! n))" "0 < data_size (h ! c)" by blast
    with Suc.prems False have "tree_wf d h c" by auto
    with Suc.IH[of c] c(2) have "leaves d h c \<noteq> []" by simp
    with c(1) have "concat (map (leaves d h) (subtrees (h ! n))) \<noteq> []" by auto
    with False Suc.prems show ?thesis by auto
  qed
qed

lemma tree_wf_nonneg: "tree_wf d h n \<Longrightarrow> 0 \<le> data_size (h ! n)"
  by (cases d) auto




text \<open>
  Outside the amended claim: when the subtrees end with an emptied leaf, \<^verbatim>\<open>leaf_at\<close> tests
  the last subtree of positive weight in the strip it had before it was stretched, and
  returns what it finds there. Here the inner node \<open>s\<close> is laid out in \<open>(3, 0, 4, 3)\<close> by
  \<^verbatim>\<open>generate_treemap\<close>, side by side, and looked up in \<open>(3, 0, 3, 3)\<close> first, one above the
  other: the point \<open>(4, 2)\<close> is in the rectangle \<open>(3, 0, 2, 3)\<close> of leaf 1 and \<^verbatim>\<open>leaf_at\<close>
  returns leaf 2.
\<close>

lemma leaf_at_stale_strip:
  "generate_treemap py_share 3 emptied_last_tree 5 (0, 0, 7, 3) =
     Inr [((0, 0, 3, 3), (0, 0, 0)), ((3, 0, 2, 3), (0, 0, 0)), ((5, 0, 2, 3), (0, 0, 0))] \<and>
   leaves 3 emptied_last_tree 5 = [0, 1, 2] \<and>
   leaf_at py_share 3 emptied_last_tree 5 (4, 2) (0, 0, 7, 3) = Inr (Some 2)"
proof -
  have sh: "py_share 2 4 7 = Inr 3" "py_share 0 4 7 = Inr 0" "py_share 1 2 4 = Inr 2"
      "py_share 1 2 3 = Inr 1"
    by (simp_all add: eval_float)
  show ?thesis
    by (simp add: emptied_last_tree_def leaf_obj_def inner_obj_def numeral_3_eq_3 sh
        drop_last_def Let_def)
qed

section \<open>\<^verbatim>\<open>generate_treemap\<close> tiles the rectangle\<close>

lemma member_le_sum_list_int:
  fixes f :: "'a \<Rightarrow> int"
  shows "\<forall>x\<in>set xs. 0 \<le> f x \<Longrightarrow> c \<in> set xs \<Longrightarrow> f c \<le> (\<Sum>x\<leftarrow>xs. f x)"
proof (induction xs)
  case Nil
  then show ?case by simp
next
  case (Cons x xs)
  have "0 \<le> (\<Sum>x\<leftarrow>xs. f x)" using Cons.prems(1) by (intro sum_list_nonneg) auto
  with Cons show ?case by auto
qed

lemma covering_append: "covering (rs @ rs') p = covering rs p + covering rs' p"
  by (simp add: covering_def)

lemma covering_Nil: "covering [] p = 0"
  by (simp add: covering_def)

lemma strip_whole:
  "strip (x, y, w, ht) (if w > ht then x else y) ((if w > ht then x else y) + (if w > ht then w else ht))
     = (x, y, w, ht)"
  by (simp add: strip_def)

lemma strip_split:
  assumes "a \<le> b" "b \<le> c"
  shows "(if inside (strip r a c) p then 1 else 0) =
         (if inside (strip r a b) p then 1 else 0) + (if inside (strip r b c) p then (1::nat) else 0)"
  using assms by (cases r) (auto simp: strip_def inside_def)

lemma strip_empty: "\<not> inside (strip r a a) p"
  by (cases r) (auto simp: strip_def inside_def)

lemma strips_after:
  fixes L :: "addr \<Rightarrow> addr list"
  assumes G: "\<And>c rx ry rw rh. c \<in> C \<Longrightarrow> 0 \<le> rw \<Longrightarrow> rw \<le> M \<Longrightarrow> 0 \<le> rh \<Longrightarrow> rh \<le> M \<Longrightarrow>
      \<exists>out. gcall c (rx, ry, rw, rh) = Inr out \<and>
            map snd out = map (\<lambda>l. colour (h ! l)) (L c) \<and>
            (\<forall>p. covering (map fst out) p =
                 (if 0 < data_size (h ! c) \<and> inside (rx, ry, rw, rh) p then 1 else 0))"
    and N: "\<And>c. c \<in> C \<Longrightarrow> 0 \<le> data_size (h ! c) \<and> (L c \<noteq> []) = (0 < data_size (h ! c))"
    and SH: "\<And>c e. c \<in> C \<Longrightarrow> 0 \<le> e \<Longrightarrow> e \<le> M \<Longrightarrow>
      \<exists>s. share (data_size (h ! c)) (data_size (h ! self)) e = Inr s \<and> 0 \<le> s \<and>
          of_int (s * data_size (h ! self)) \<le> K * of_int (data_size (h ! c) * e)"
    and K0: "(0::rat) \<le> K"
    and KM: "\<And>e. 0 \<le> e \<Longrightarrow> e \<le> M \<Longrightarrow> K * of_int e < of_int e + 1"
    and AB: "\<And>c. c \<in> C \<Longrightarrow> data_size (h ! c) \<le> data_size (h ! self)"
    and dims: "0 \<le> w" "0 \<le> ht"
    and dimsM: "w \<le> M" "ht \<le> M"
    and b: "0 < data_size (h ! self)"
    and s0: "s0 = (if w > ht then ix else iy)"
    and E: "E = (if w > ht then w else ht)"
  shows "set rs \<subseteq> C \<Longrightarrow> rs \<noteq> [] \<Longrightarrow> t \<in> C \<Longrightarrow> 0 < data_size (h ! t) \<Longrightarrow>
     sub \<noteq> [] \<Longrightarrow> map snd sub = map (\<lambda>l. colour (h ! l)) (L t) \<Longrightarrow>
     xy = (if w > ht then (cur, iy) else (ix, cur)) \<Longrightarrow> s0 \<le> lx \<Longrightarrow> lx \<le> cur \<Longrightarrow>
     (\<forall>p. covering (map fst res0) p = (if inside (strip (ix, iy, w, ht) s0 lx) p then 1 else 0)) \<Longrightarrow>
     (\<forall>p. covering (map fst (res0 @ sub)) p =
          (if inside (strip (ix, iy, w, ht) s0 cur) p then 1 else 0)) \<Longrightarrow>
     of_int ((cur - s0) * data_size (h ! self)) +
         K * of_int (E * (\<Sum>c\<leftarrow>rs. data_size (h ! c)))
        \<le> K * of_int (E * data_size (h ! self)) \<Longrightarrow>
     \<exists>out. treemap_loop gcall share h self (ix, iy, w, ht) rs xy (res0 @ sub)
             (Some t, length sub, lx) = Inr out \<and>
           (\<forall>p. covering (map fst out) p = (if inside (ix, iy, w, ht) p then 1 else 0)) \<and>
           map snd out = map snd res0 @ map (\<lambda>l. colour (h ! l)) (L t @ concat (map L rs))"
proof (induction rs arbitrary: t sub lx cur xy res0)
  case Nil
  then show ?case by simp
next
  case (Cons c rest)
  let ?R = "(ix, iy, w, ht)"
  let ?b = "data_size (h ! self)"
  let ?a = "data_size (h ! c)"
  from Cons.prems(1) have cC: "c \<in> C" and restC: "set rest \<subseteq> C" by auto
  from N[OF cC] have a0: "0 \<le> ?a" and Lc: "(L c \<noteq> []) = (0 < ?a)" by auto
  have E0: "0 \<le> E" using dims E by simp
  have EM: "E \<le> M" using dimsM E by simp
  have S0: "0 \<le> (\<Sum>c\<leftarrow>rest. data_size (h ! c))"
    using restC N by (intro sum_list_nonneg) auto
  note bound = Cons.prems(12)
  have s0cur: "s0 \<le> cur" using Cons.prems(8,9) by simp
  have KE: "K * of_int E < of_int E + 1" using KM[OF E0 EM] .
  have lt: "z < E + 1" if "of_int (z * ?b) \<le> K * of_int (E * ?b)" for z
  proof -
    have "K * of_int (E * ?b) = (K * of_int E) * of_int ?b" by simp
    also have "\<dots> < (of_int E + 1) * of_int ?b"
      using KE b by (intro mult_strict_right_mono) simp_all
    also have "\<dots> = of_int ((E + 1) * ?b)" by simp
    finally have "(of_int (z * ?b) :: rat) < of_int ((E + 1) * ?b)" using that by linarith
    then have "z * ?b < (E + 1) * ?b" by (simp only: of_int_less_iff)
    with b show ?thesis by simp
  qed
  have curE: "cur \<le> s0 + E"
  proof -
    have "0 \<le> E * (\<Sum>c\<leftarrow>c # rest. data_size (h ! c))"
      using E0 a0 S0 by simp
    then have "(0::rat) \<le> of_int (E * (\<Sum>c\<leftarrow>c # rest. data_size (h ! c)))"
      by (simp only: of_int_0_le_iff)
    then have "0 \<le> K * of_int (E * (\<Sum>c\<leftarrow>c # rest. data_size (h ! c)))"
      using K0 by (rule mult_nonneg_nonneg[rotated])
    with bound have "of_int ((cur - s0) * ?b) \<le> K * of_int (E * ?b)" by linarith
    from lt[OF this] show ?thesis by simp
  qed
  show ?case
  proof (cases "rest = []")
    case True
    let ?rc = "if w > ht then (cur, iy, w - cur + ix, ht) else (ix, cur, w, ht - cur + iy)"
    have rc: "?rc = strip ?R cur (s0 + E)"
      by (simp add: strip_def s0 E algebra_simps)
    have "\<exists>out. gcall c ?rc = Inr out \<and>
            map snd out = map (\<lambda>l. colour (h ! l)) (L c) \<and>
            (\<forall>p. covering (map fst out) p =
                 (if 0 < ?a \<and> inside ?rc p then 1 else 0))"
    proof (cases "w > ht")
      case True
      then have "0 \<le> w - cur + ix" "w - cur + ix \<le> M"
        using curE s0cur s0 E dimsM by simp_all
      from G[OF cC this dims(2) dimsM(2), of cur iy] True show ?thesis by simp
    next
      case False
      then have "0 \<le> ht - cur + iy" "ht - cur + iy \<le> M"
        using curE s0cur s0 E dimsM by simp_all
      from G[OF cC dims(1) dimsM(1) this, of ix cur] False show ?thesis by simp
    qed
    then obtain out where out: "gcall c ?rc = Inr out"
      "map snd out = map (\<lambda>l. colour (h ! l)) (L c)"
      "\<forall>p. covering (map fst out) p = (if 0 < ?a \<and> inside ?rc p then 1 else 0)"
      by blast
    show ?thesis
    proof (cases "out = []")
      case False
      with out(2) Lc have apos: "0 < ?a" by auto
      have loop: "treemap_loop gcall share h self ?R (c # rest) xy (res0 @ sub)
             (Some t, length sub, lx) = Inr ((res0 @ sub) @ out)"
        using True False out(1) Cons.prems(7) drop_last_append[OF False, of "res0 @ sub"]
        by (cases "w > ht") (simp_all add: Let_def)
      have cov: "\<forall>p. covering (map fst ((res0 @ sub) @ out)) p
                   = (if inside ?R p then 1 else 0)"
      proof
        fix p
        have "covering (map fst out) p = (if inside (strip ?R cur (s0 + E)) p then 1 else 0)"
          using out(3)[THEN spec, of p] apos by (simp only: rc if_True simp_thms)
        then have "covering (map fst ((res0 @ sub) @ out)) p =
              (if inside (strip ?R s0 cur) p then 1 else 0) +
              (if inside (strip ?R cur (s0 + E)) p then 1 else 0)"
          using Cons.prems(11)[THEN spec, of p]
          by (simp only: map_append[of fst "res0 @ sub" out] covering_append)
        also have "\<dots> = (if inside (strip ?R s0 (s0 + E)) p then 1 else 0)"
          using strip_split[of s0 cur "s0 + E" ?R p] Cons.prems(8,9) curE by simp
        also have "strip ?R s0 (s0 + E) = ?R"
          using strip_whole[of ix iy w ht] s0 E by simp
        finally show "covering (map fst ((res0 @ sub) @ out)) p = (if inside ?R p then 1 else 0)" .
      qed
      from loop cov out(2) Cons.prems(6) True show ?thesis by simp
    next
      case outNil: True
      with out(2) Lc have LcNil: "L c = []" by auto
      let ?rt = "if w > ht then (lx, iy, w - lx + ix, ht) else (ix, lx, w, ht - lx + iy)"
      have rt: "?rt = strip ?R lx (s0 + E)"
        by (simp add: strip_def s0 E algebra_simps)
      have "\<exists>out. gcall t ?rt = Inr out \<and>
            map snd out = map (\<lambda>l. colour (h ! l)) (L t) \<and>
            (\<forall>p. covering (map fst out) p =
                 (if 0 < data_size (h ! t) \<and> inside ?rt p then 1 else 0))"
      proof (cases "w > ht")
        case True
        then have "0 \<le> w - lx + ix" "w - lx + ix \<le> M"
          using curE Cons.prems(8,9) s0 E dimsM by simp_all
        from G[OF Cons.prems(3) this dims(2) dimsM(2), of lx iy] True show ?thesis by simp
      next
        case False
        then have "0 \<le> ht - lx + iy" "ht - lx + iy \<le> M"
          using curE Cons.prems(8,9) s0 E dimsM by simp_all
        from G[OF Cons.prems(3) dims(1) dimsM(1) this, of ix lx] False show ?thesis by simp
      qed
      then obtain out2 where out2: "gcall t ?rt = Inr out2"
        "map snd out2 = map (\<lambda>l. colour (h ! l)) (L t)"
        "\<forall>p. covering (map fst out2) p = (if inside ?rt p then 1 else 0)"
        using Cons.prems(4) by auto
      have loop: "treemap_loop gcall share h self ?R (c # rest) xy (res0 @ sub)
             (Some t, length sub, lx) = Inr (res0 @ out2)"
        using True outNil out(1) out2(1) Cons.prems(7)
          drop_last_append[OF Cons.prems(5), of res0]
        by (cases "w > ht") (simp_all add: Let_def)
      have cov: "\<forall>p. covering (map fst (res0 @ out2)) p = (if inside ?R p then 1 else 0)"
      proof
        fix p
        have "covering (map fst out2) p = (if inside (strip ?R lx (s0 + E)) p then 1 else 0)"
          using out2(3)[THEN spec, of p] by (simp only: rt)
        then have "covering (map fst (res0 @ out2)) p =
              (if inside (strip ?R s0 lx) p then 1 else 0) +
              (if inside (strip ?R lx (s0 + E)) p then 1 else 0)"
          using Cons.prems(10)[THEN spec, of p]
          by (simp only: map_append covering_append)
        also have "\<dots> = (if inside (strip ?R s0 (s0 + E)) p then 1 else 0)"
          using strip_split[of s0 lx "s0 + E" ?R p] Cons.prems(8,9) curE by simp
        also have "strip ?R s0 (s0 + E) = ?R"
          using strip_whole[of ix iy w ht] s0 E by simp
        finally show "covering (map fst (res0 @ out2)) p = (if inside ?R p then 1 else 0)" .
      qed
      from loop cov out2(2) LcNil True show ?thesis by simp
    qed
  next
    case False
    from SH[OF cC E0 EM] obtain sh where
      she: "share ?a ?b E = Inr sh" and sh0: "0 \<le> sh"
      and shb: "of_int (sh * ?b) \<le> K * of_int (?a * E)"
      by blast
    let ?sh = sh
    have shM: "sh \<le> M"
    proof -
      have "?a * E \<le> ?b * E" using AB[OF cC] E0 by (rule mult_right_mono)
      then have "(of_int (?a * E) :: rat) \<le> of_int (E * ?b)"
        by (simp only: of_int_le_iff mult.commute[of E])
      then have "K * of_int (?a * E) \<le> K * of_int (E * ?b)" using K0 by (rule mult_left_mono)
      with shb have "of_int (sh * ?b) \<le> K * of_int (E * ?b)" by linarith
      from lt[OF this] EM show ?thesis by simp
    qed
    let ?rc = "if w > ht then (cur, iy, ?sh, ht) else (ix, cur, w, ?sh)"
    have rc: "?rc = strip ?R cur (cur + ?sh)"
      by (simp add: strip_def)
    have "\<exists>out. gcall c ?rc = Inr out \<and>
            map snd out = map (\<lambda>l. colour (h ! l)) (L c) \<and>
            (\<forall>p. covering (map fst out) p =
                 (if 0 < ?a \<and> inside ?rc p then 1 else 0))"
    proof (cases "w > ht")
      case True
      from G[OF cC sh0 shM dims(2) dimsM(2), of cur iy] True show ?thesis by simp
    next
      case False
      from G[OF cC dims(1) dimsM(1) sh0 shM, of ix cur] False show ?thesis by simp
    qed
    then obtain out where out: "gcall c ?rc = Inr out"
      "map snd out = map (\<lambda>l. colour (h ! l)) (L c)"
      "\<forall>p. covering (map fst out) p = (if 0 < ?a \<and> inside ?rc p then 1 else 0)"
      by blast
    let ?xy' = "if w > ht then (cur + ?sh, iy) else (ix, cur + ?sh)"
    show ?thesis
    proof (cases "out = []")
      case outne: False
      with out(2) Lc have apos: "0 < ?a" by auto
      have step: "treemap_loop gcall share h self ?R (c # rest) xy (res0 @ sub)
             (Some t, length sub, lx) =
           treemap_loop gcall share h self ?R rest ?xy' ((res0 @ sub) @ out)
             (Some c, length out, cur)"
        using False outne out(1) Cons.prems(7) E she
        by (cases "w > ht") (simp_all add: Let_def)
      have T2: "\<forall>p. covering (map fst ((res0 @ sub) @ out)) p =
          (if inside (strip ?R s0 (cur + ?sh)) p then 1 else 0)"
      proof
        fix p
        have "covering (map fst out) p = (if inside (strip ?R cur (cur + ?sh)) p then 1 else 0)"
          using out(3)[THEN spec, of p] apos by (simp only: rc if_True simp_thms)
        then have "covering (map fst ((res0 @ sub) @ out)) p =
              (if inside (strip ?R s0 cur) p then 1 else 0) +
              (if inside (strip ?R cur (cur + ?sh)) p then 1 else 0)"
          using Cons.prems(11)[THEN spec, of p]
          by (simp only: map_append[of fst "res0 @ sub" out] covering_append)
        also have "\<dots> = (if inside (strip ?R s0 (cur + ?sh)) p then 1 else 0)"
          using strip_split[of s0 cur "cur + ?sh" ?R p] Cons.prems(8,9) sh0 by simp
        finally show "covering (map fst ((res0 @ sub) @ out)) p =
          (if inside (strip ?R s0 (cur + ?sh)) p then 1 else 0)" .
      qed
      have bound': "of_int ((cur + ?sh - s0) * ?b) +
            K * of_int (E * (\<Sum>c\<leftarrow>rest. data_size (h ! c)))
          \<le> K * of_int (E * ?b)"
      proof -
        have "of_int ((cur + sh - s0) * ?b) =
            (of_int ((cur - s0) * ?b) :: rat) + of_int (sh * ?b)"
          by (simp add: algebra_simps)
        moreover have "K * of_int (E * (\<Sum>c\<leftarrow>c # rest. data_size (h ! c))) =
            K * of_int (?a * E) + K * of_int (E * (\<Sum>c\<leftarrow>rest. data_size (h ! c)))"
          by (simp add: algebra_simps)
        ultimately show ?thesis using bound shb by linarith
      qed
      from Cons.IH[OF restC False cC apos outne out(2) refl _ _ Cons.prems(11) T2 bound']
        Cons.prems(8,9) sh0
      obtain out' where out': "treemap_loop gcall share h self ?R rest ?xy'
             ((res0 @ sub) @ out) (Some c, length out, cur) = Inr out'"
        "\<forall>p. covering (map fst out') p = (if inside ?R p then 1 else 0)"
        "map snd out' = map snd (res0 @ sub) @
            map (\<lambda>l. colour (h ! l)) (L c @ concat (map L rest))"
        by auto
      from step out' Cons.prems(6) show ?thesis by simp
    next
      case outNil: True
      with out(2) Lc a0 have az: "?a = 0" and LcNil: "L c = []" by auto
      have shz: "sh = 0"
      proof -
        have "(of_int (sh * ?b) :: rat) \<le> 0" using shb az by simp
        then have "sh * ?b \<le> 0" by (simp only: of_int_le_0_iff)
        then have "sh \<le> 0" using b by (simp add: mult_le_0_iff)
        with sh0 show ?thesis by simp
      qed
      have step: "treemap_loop gcall share h self ?R (c # rest) xy (res0 @ sub)
             (Some t, length sub, lx) =
           treemap_loop gcall share h self ?R rest xy (res0 @ sub)
             (Some t, length sub, lx)"
        using False outNil out(1) Cons.prems(7) E she shz
        by (cases "w > ht") (simp_all add: Let_def)
      have bound': "of_int ((cur - s0) * ?b) +
            K * of_int (E * (\<Sum>c\<leftarrow>rest. data_size (h ! c)))
          \<le> K * of_int (E * ?b)"
        using bound az by simp
      from Cons.IH[OF restC False Cons.prems(3,4,5,6,7,8,9,10,11) bound']
      obtain out' where out': "treemap_loop gcall share h self ?R rest xy
             (res0 @ sub) (Some t, length sub, lx) = Inr out'"
        "\<forall>p. covering (map fst out') p = (if inside ?R p then 1 else 0)"
        "map snd out' = map snd res0 @
            map (\<lambda>l. colour (h ! l)) (L t @ concat (map L rest))"
        by auto
      from step out' LcNil show ?thesis by simp
    qed
  qed
qed

lemma strips_start:
  fixes L :: "addr \<Rightarrow> addr list"
  assumes G: "\<And>c rx ry rw rh. c \<in> C \<Longrightarrow> 0 \<le> rw \<Longrightarrow> rw \<le> M \<Longrightarrow> 0 \<le> rh \<Longrightarrow> rh \<le> M \<Longrightarrow>
      \<exists>out. gcall c (rx, ry, rw, rh) = Inr out \<and>
            map snd out = map (\<lambda>l. colour (h ! l)) (L c) \<and>
            (\<forall>p. covering (map fst out) p =
                 (if 0 < data_size (h ! c) \<and> inside (rx, ry, rw, rh) p then 1 else 0))"
    and N: "\<And>c. c \<in> C \<Longrightarrow> 0 \<le> data_size (h ! c) \<and> (L c \<noteq> []) = (0 < data_size (h ! c))"
    and SH: "\<And>c e. c \<in> C \<Longrightarrow> 0 \<le> e \<Longrightarrow> e \<le> M \<Longrightarrow>
      \<exists>s. share (data_size (h ! c)) (data_size (h ! self)) e = Inr s \<and> 0 \<le> s \<and>
          of_int (s * data_size (h ! self)) \<le> K * of_int (data_size (h ! c) * e)"
    and K0: "(0::rat) \<le> K"
    and KM: "\<And>e. 0 \<le> e \<Longrightarrow> e \<le> M \<Longrightarrow> K * of_int e < of_int e + 1"
    and AB: "\<And>c. c \<in> C \<Longrightarrow> data_size (h ! c) \<le> data_size (h ! self)"
    and dims: "0 \<le> w" "0 \<le> ht"
    and dimsM: "w \<le> M" "ht \<le> M"
    and b: "0 < data_size (h ! self)"
  shows "set rs \<subseteq> C \<Longrightarrow> rs \<noteq> [] \<Longrightarrow>
     (\<Sum>c\<leftarrow>rs. data_size (h ! c)) = data_size (h ! self) \<Longrightarrow>
     \<exists>out. treemap_loop gcall share h self (ix, iy, w, ht) rs (ix, iy) []
             (None, 0, 0) = Inr out \<and>
           (\<forall>p. covering (map fst out) p = (if inside (ix, iy, w, ht) p then 1 else 0)) \<and>
           map snd out = map (\<lambda>l. colour (h ! l)) (concat (map L rs))"
proof (induction rs)
  case Nil
  then show ?case by simp
next
  case (Cons c rest)
  let ?R = "(ix, iy, w, ht)"
  let ?b = "data_size (h ! self)"
  let ?a = "data_size (h ! c)"
  define s0 where "s0 = (if w > ht then ix else iy)"
  define E where "E = (if w > ht then w else ht)"
  from Cons.prems(1) have cC: "c \<in> C" and restC: "set rest \<subseteq> C" by auto
  from N[OF cC] have a0: "0 \<le> ?a" and Lc: "(L c \<noteq> []) = (0 < ?a)" by auto
  have E0: "0 \<le> E" using dims E_def by simp
  have EM: "E \<le> M" using dimsM E_def by simp
  show ?case
  proof (cases "rest = []")
    case True
    with Cons.prems(3) b have apos: "0 < ?a" by simp
    have "\<exists>out. gcall c ?R = Inr out \<and>
            map snd out = map (\<lambda>l. colour (h ! l)) (L c) \<and>
            (\<forall>p. covering (map fst out) p =
                 (if 0 < ?a \<and> inside ?R p then 1 else 0))"
      using G[OF cC dims(1) dimsM(1) dims(2) dimsM(2)] by blast
    then obtain out where out: "gcall c ?R = Inr out"
      "map snd out = map (\<lambda>l. colour (h ! l)) (L c)"
      "\<forall>p. covering (map fst out) p = (if inside ?R p then 1 else 0)"
      using apos by auto
    from out(2) Lc apos have ne: "out \<noteq> []" by auto
    have "treemap_loop gcall share h self ?R (c # rest) (ix, iy) [] (None, 0, 0) = Inr out"
      using True ne out(1) drop_last_append[OF ne, of "[]"]
      by (cases "w > ht") (simp_all add: Let_def)
    with out(2,3) True show ?thesis by simp
  next
    case False
    from SH[OF cC E0 EM] obtain sh where
      she: "share ?a ?b E = Inr sh" and sh0: "0 \<le> sh"
      and shb: "of_int (sh * ?b) \<le> K * of_int (?a * E)"
      by blast
    let ?sh = sh
    have S0: "0 \<le> (\<Sum>c\<leftarrow>rest. data_size (h ! c))"
      using restC N by (intro sum_list_nonneg) auto
    have shM: "sh \<le> M"
    proof -
      have "?a * E \<le> ?b * E" using AB[OF cC] E0 by (rule mult_right_mono)
      then have "(of_int (?a * E) :: rat) \<le> of_int (E * ?b)"
        by (simp only: of_int_le_iff mult.commute[of E])
      then have "K * of_int (?a * E) \<le> K * of_int (E * ?b)" using K0 by (rule mult_left_mono)
      with shb have le: "of_int (sh * ?b) \<le> K * of_int (E * ?b)" by linarith
      have "K * of_int (E * ?b) = (K * of_int E) * of_int ?b" by simp
      also have "\<dots> < (of_int E + 1) * of_int ?b"
        using KM[OF E0 EM] b by (intro mult_strict_right_mono) simp_all
      also have "\<dots> = of_int ((E + 1) * ?b)" by simp
      finally have "(of_int (sh * ?b) :: rat) < of_int ((E + 1) * ?b)" using le by linarith
      then have "sh * ?b < (E + 1) * ?b" by (simp only: of_int_less_iff)
      with b have "sh < E + 1" by simp
      with EM show ?thesis by simp
    qed
    let ?rc = "if w > ht then (ix, iy, ?sh, ht) else (ix, iy, w, ?sh)"
    have rc: "?rc = strip ?R s0 (s0 + ?sh)"
      by (simp add: strip_def s0_def)
    have "\<exists>out. gcall c ?rc = Inr out \<and>
            map snd out = map (\<lambda>l. colour (h ! l)) (L c) \<and>
            (\<forall>p. covering (map fst out) p =
                 (if 0 < ?a \<and> inside ?rc p then 1 else 0))"
    proof (cases "w > ht")
      case True
      from G[OF cC sh0 shM dims(2) dimsM(2), of ix iy] True show ?thesis by simp
    next
      case False
      from G[OF cC dims(1) dimsM(1) sh0 shM, of ix iy] False show ?thesis by simp
    qed
    then obtain out where out: "gcall c ?rc = Inr out"
      "map snd out = map (\<lambda>l. colour (h ! l)) (L c)"
      "\<forall>p. covering (map fst out) p = (if 0 < ?a \<and> inside ?rc p then 1 else 0)"
      by blast
    let ?xy' = "if w > ht then (s0 + ?sh, iy) else (ix, s0 + ?sh)"
    show ?thesis
    proof (cases "out = []")
      case outne: False
      with out(2) Lc have apos: "0 < ?a" by auto
      have step: "treemap_loop gcall share h self ?R (c # rest) (ix, iy) [] (None, 0, 0) =
           treemap_loop gcall share h self ?R rest ?xy' ([] @ out) (Some c, length out, s0)"
        using False outne out(1) E_def s0_def she
        by (cases "w > ht") (simp_all add: Let_def)
      have T1: "\<forall>p. covering (map fst []) p = (if inside (strip ?R s0 s0) p then 1 else 0)"
        by (simp add: covering_Nil strip_empty)
      have T2: "\<forall>p. covering (map fst ([] @ out)) p =
          (if inside (strip ?R s0 (s0 + ?sh)) p then 1 else 0)"
      proof
        fix p
        show "covering (map fst ([] @ out)) p =
          (if inside (strip ?R s0 (s0 + ?sh)) p then 1 else 0)"
          using out(3)[THEN spec, of p] apos
          by (simp only: rc if_True simp_thms append_Nil)
      qed
      have bound': "of_int ((s0 + ?sh - s0) * ?b) +
            K * of_int (E * (\<Sum>c\<leftarrow>rest. data_size (h ! c)))
          \<le> K * of_int (E * ?b)"
      proof -
        have "(\<Sum>c\<leftarrow>rest. data_size (h ! c)) = ?b - ?a" using Cons.prems(3) by simp
        then have "K * of_int (E * (\<Sum>c\<leftarrow>rest. data_size (h ! c))) =
            K * of_int (E * (?b - ?a))"
          by (simp only:)
        also have "\<dots> = K * of_int (E * ?b) - K * of_int (?a * E)"
          by (simp add: algebra_simps)
        finally have "K * of_int (E * (\<Sum>c\<leftarrow>rest. data_size (h ! c))) =
            K * of_int (E * ?b) - K * of_int (?a * E)" .
        moreover have "(s0 + ?sh - s0) * ?b = ?sh * ?b" by simp
        ultimately show ?thesis using shb by simp
      qed
      from strips_after[where gcall = gcall and L = L and C = C and h = h and M = M
            and share = share and self = self and K = K, OF G N SH K0 KM AB dims dimsM b
          s0_def E_def restC False cC apos outne out(2) refl _ _ T1 T2 bound'] sh0
      obtain out' where out': "treemap_loop gcall share h self ?R rest ?xy'
             ([] @ out) (Some c, length out, s0) = Inr out'"
        "\<forall>p. covering (map fst out') p = (if inside ?R p then 1 else 0)"
        "map snd out' = map snd [] @
            map (\<lambda>l. colour (h ! l)) (L c @ concat (map L rest))"
        by auto
      from step out' show ?thesis by simp
    next
      case outNil: True
      with out(2) Lc a0 have az: "?a = 0" and LcNil: "L c = []" by auto
      have shz: "sh = 0"
      proof -
        have "(of_int (sh * ?b) :: rat) \<le> 0" using shb az by simp
        then have "sh * ?b \<le> 0" by (simp only: of_int_le_0_iff)
        then have "sh \<le> 0" using b by (simp add: mult_le_0_iff)
        with sh0 show ?thesis by simp
      qed
      have step: "treemap_loop gcall share h self ?R (c # rest) (ix, iy) [] (None, 0, 0) =
           treemap_loop gcall share h self ?R rest (ix, iy) [] (None, 0, 0)"
        using False outNil out(1) E_def she shz
        by (cases "w > ht") (simp_all add: Let_def)
      have "(\<Sum>c\<leftarrow>rest. data_size (h ! c)) = ?b" using Cons.prems(3) az by simp
      from Cons.IH[OF restC False this]
      obtain out' where out': "treemap_loop gcall share h self ?R rest (ix, iy) []
             (None, 0, 0) = Inr out'"
        "\<forall>p. covering (map fst out') p = (if inside ?R p then 1 else 0)"
        "map snd out' = map (\<lambda>l. colour (h ! l)) (concat (map L rest))"
        by auto
      from step out' LcNil show ?thesis by simp
    qed
  qed
qed

lemma treemap_covering:
  assumes SH: "\<And>a b e. 0 \<le> a \<Longrightarrow> a \<le> b \<Longrightarrow> 0 < b \<Longrightarrow> 0 \<le> e \<Longrightarrow> e \<le> M \<Longrightarrow>
      \<exists>s. share a b e = Inr s \<and> 0 \<le> s \<and> of_int (s * b) \<le> K * of_int (a * e)"
    and K0: "(0::rat) \<le> K"
    and KM: "\<And>e. 0 \<le> e \<Longrightarrow> e \<le> M \<Longrightarrow> K * of_int e < of_int e + 1"
  shows "tree_wf d h n \<Longrightarrow> 0 \<le> w \<Longrightarrow> w \<le> M \<Longrightarrow> 0 \<le> ht \<Longrightarrow> ht \<le> M \<Longrightarrow>
   \<exists>out. generate_treemap share d h n (x, y, w, ht) = Inr out \<and>
         map snd out = map (\<lambda>l. colour (h ! l)) (leaves d h n) \<and>
         (\<forall>p. covering (map fst out) p =
              (if 0 < data_size (h ! n) \<and> inside (x, y, w, ht) p then 1 else 0))"
proof (induction d arbitrary: n x y w ht)
  case 0
  then show ?case by simp
next
  case (Suc d)
  show ?case
  proof (cases "data_size (h ! n) = 0 \<or> subtrees (h ! n) = []")
    case True
    with Suc.prems(1) show ?thesis by (auto simp: covering_def)
  next
    case False
    let ?rs = "subtrees (h ! n)"
    have wf: "tree_wf d h c" if "c \<in> set ?rs" for c
      using Suc.prems(1) False that by auto
    from False Suc.prems(1) have b: "0 < data_size (h ! n)" by auto
    from False have ne: "?rs \<noteq> []" by simp
    from False Suc.prems(1) have total: "(\<Sum>c\<leftarrow>?rs. data_size (h ! c)) = data_size (h ! n)"
      by auto
    have nonneg: "\<forall>c\<in>set ?rs. 0 \<le> data_size (h ! c)"
      using tree_wf_nonneg[OF wf] by blast
    have le: "data_size (h ! c) \<le> data_size (h ! n)" if "c \<in> set ?rs" for c
      using member_le_sum_list_int[OF nonneg that] total by simp
    have G: "\<exists>out. generate_treemap share d h c (rx, ry, rw, rh) = Inr out \<and>
            map snd out = map (\<lambda>l. colour (h ! l)) (leaves d h c) \<and>
            (\<forall>p. covering (map fst out) p =
                 (if 0 < data_size (h ! c) \<and> inside (rx, ry, rw, rh) p then 1 else 0))"
      if "c \<in> set ?rs" "0 \<le> rw" "rw \<le> M" "0 \<le> rh" "rh \<le> M" for c rx ry rw rh
      using Suc.IH[OF wf[OF that(1)] that(2,3,4,5)] by blast
    have N: "0 \<le> data_size (h ! c) \<and> (leaves d h c \<noteq> []) = (0 < data_size (h ! c))"
      if "c \<in> set ?rs" for c
      using leaves_positive[OF wf[OF that]] tree_wf_nonneg[OF wf[OF that]] by simp
    have S: "\<exists>s. share (data_size (h ! c)) (data_size (h ! n)) e = Inr s \<and> 0 \<le> s \<and>
          of_int (s * data_size (h ! n)) \<le> K * of_int (data_size (h ! c) * e)"
      if "c \<in> set ?rs" "0 \<le> e" "e \<le> M" for c e
      using SH[OF _ le[OF that(1)] b that(2,3)] nonneg that(1) by blast
    from strips_start[where gcall = "generate_treemap share d h" and L = "leaves d h"
        and C = "set ?rs" and h = h and self = n and ix = x and iy = y and M = M
        and share = share and K = K,
        OF G N S K0 KM le Suc.prems(2,4,3,5) b subset_refl ne total]
    obtain out where
      "treemap_loop (generate_treemap share d h) share h n (x, y, w, ht) ?rs (x, y) []
         (None, 0, 0) = Inr out"
      "\<forall>p. covering (map fst out) p = (if inside (x, y, w, ht) p then 1 else 0)"
      "map snd out = map (\<lambda>l. colour (h ! l)) (concat (map (leaves d h) ?rs))"
      by auto
    with False b show ?thesis by simp
  qed
qed

lemma covering_pos_iff:
  "(0 < covering rs p) = (\<exists>i<length rs. inside (rs ! i) p)"
proof -
  have "(0 < covering rs p) = (\<exists>r\<in>set rs. inside r p)"
    by (simp add: covering_def filter_empty_conv)
  also have "\<dots> = (\<exists>i<length rs. inside (rs ! i) p)"
    by (metis in_set_conv_nth)
  finally show ?thesis .
qed

lemma covering_le_one:
  assumes "covering rs p \<le> 1" "i < j" "j < length rs"
  shows "\<not> (inside (rs ! i) p \<and> inside (rs ! j) p)"
proof
  assume both: "inside (rs ! i) p \<and> inside (rs ! j) p"
  have "{i, j} \<subseteq> {k. k < length rs \<and> inside (rs ! k) p}"
    using assms(2,3) both by auto
  then have "card {i, j} \<le> card {k. k < length rs \<and> inside (rs ! k) p}"
    by (intro card_mono) auto
  moreover have "card {i, j} = 2" using assms(2) by simp
  moreover have "covering rs p = card {k. k < length rs \<and> inside (rs ! k) p}"
    by (simp add: covering_def length_filter_conv_card)
  ultimately show False using assms(1) by simp
qed

text \<open>
  C2, as amended: for a well-formed tree of positive weight and a rectangle whose width
  and height are not negative and below \<open>2\<^sup>5\<^sup>2\<close>, \<^verbatim>\<open>generate_treemap\<close> in the \<^verbatim>\<open>float\<close>
  arithmetic of the source raises nothing and returns rectangles that tile the rectangle:
  a pixel is in the rectangle exactly when it is in one of those returned, and no pixel
  is in two of them. There is one rectangle for each leaf of positive weight, in the
  order and the colours of the leaves. Below \<open>2\<^sup>5\<^sup>2\<close> the two roundings of \<^verbatim>\<open>a / b * w\<close> add
  less than one pixel to the whole width, so that the strips before the last take no
  more than the width that is split, and the last one takes what is left. The witness is
  a tree whose subtrees end with an emptied leaf, so that the last subtree of positive
  weight is stretched.
\<close>

theorem generate_treemap_tiles:
  assumes "tree_wf d h n" and "0 < data_size (h ! n)"
    and "0 \<le> w" and "w < 2 ^ 52" and "0 \<le> ht" and "ht < 2 ^ 52"
  shows "\<exists>out. generate_treemap py_share d h n (x, y, w, ht) = Inr out \<and>
     (\<forall>p. inside (x, y, w, ht) p = (\<exists>i<length out. inside (fst (out ! i)) p)) \<and>
     (\<forall>i j p. i < j \<and> j < length out \<longrightarrow>
        \<not> (inside (fst (out ! i)) p \<and> inside (fst (out ! j)) p)) \<and>
     length out = length (leaves d h n) \<and>
     map snd out = map (\<lambda>l. colour (h ! l)) (leaves d h n)"
proof -
  let ?M = "2 ^ 52 - 1 :: int"
  have SH: "\<exists>s. py_share a b e = Inr s \<and> 0 \<le> s \<and>
               of_int (s * b) \<le> two_roundings * of_int (a * e)"
    if "0 \<le> a" "a \<le> b" "0 < b" "0 \<le> e" "e \<le> ?M" for a b e
  proof -
    have "e < 2 ^ 52" using that(5) by simp
    from py_share_sound[OF that(1,2,3,4) this] show ?thesis .
  qed
  have K0: "0 \<le> two_roundings" by (simp add: two_roundings_def)
  have KM: "two_roundings * of_int e < of_int e + 1" if "0 \<le> e" "e \<le> ?M" for e
  proof -
    have "e < 2 ^ 52" using that(2) by simp
    from two_roundings_extent[OF that(1) this] show ?thesis .
  qed
  have wM: "w \<le> ?M" and hM: "ht \<le> ?M" using assms(4,6) by simp_all
  from treemap_covering[where share = py_share and K = two_roundings and M = ?M,
      OF SH K0 KM assms(1,3) wM assms(5) hM, of x y] assms(2)
  obtain out where
    out: "generate_treemap py_share d h n (x, y, w, ht) = Inr out"
      "map snd out = map (\<lambda>l. colour (h ! l)) (leaves d h n)"
      "\<forall>p. covering (map fst out) p = (if inside (x, y, w, ht) p then 1 else 0)"
    by auto
  have "inside (x, y, w, ht) p = (\<exists>i<length out. inside (fst (out ! i)) p)" for p
    using covering_pos_iff[of "map fst out" p] out(3)[THEN spec, of p]
    by (auto split: if_splits)
  moreover have "\<not> (inside (fst (out ! i)) p \<and> inside (fst (out ! j)) p)"
    if "i < j \<and> j < length out" for i j p
    using covering_le_one[of "map fst out" p i j] out(3)[THEN spec, of p] that
    by (auto split: if_splits)
  moreover have "length out = length (leaves d h n)"
    using out(2) by (metis length_map)
  ultimately show ?thesis using out(1,2) by blast
qed

theorem generate_treemap_tiles_witness:
  "\<exists>out. generate_treemap py_share 3 emptied_last_tree 5 (0, 0, 7, 3) = Inr out \<and>
     (\<forall>p. inside (0, 0, 7, 3) p = (\<exists>i<length out. inside (fst (out ! i)) p)) \<and>
     length out = 3"
proof -
  have "tree_wf 3 emptied_last_tree 5" "0 < data_size (emptied_last_tree ! 5)"
    by (simp_all add: emptied_last_tree_def leaf_obj_def inner_obj_def numeral_3_eq_3)
  then have "\<exists>out. generate_treemap py_share 3 emptied_last_tree 5 (0, 0, 7, 3) = Inr out \<and>
     (\<forall>p. inside (0, 0, 7, 3) p = (\<exists>i<length out. inside (fst (out ! i)) p)) \<and>
     length out = length (leaves 3 emptied_last_tree 5)"
    using generate_treemap_tiles[of 3 emptied_last_tree 5 7 3 0 0] by auto
  moreover have "leaves 3 emptied_last_tree 5 = [0, 1, 2]"
    by (simp add: emptied_last_tree_def leaf_obj_def inner_obj_def numeral_3_eq_3)
  ultimately show ?thesis by (simp only: list.size) (simp only: numeral_3_eq_3 One_nat_def add_Suc add_0)
qed

text \<open>
  C2 as stated fails in two ways. A well-formed tree of weight 0, an empty folder for
  one, returns no rectangle, and the pixel \<open>(0, 0)\<close> of the rectangle is covered by none.
  And the \<^verbatim>\<open>float\<close> arithmetic can round a strip too wide: with leaves of weights
  \<open>2\<^sup>5\<^sup>5 - 2\<close>, 1 and 1 in a rectangle of width \<open>2\<^sup>5\<^sup>5\<close>, the quotient \<open>(2\<^sup>5\<^sup>5 - 2) / 2\<^sup>5\<^sup>5\<close>
  rounds to 1 and the first leaf takes the whole width; the second leaf is given the pixel
  \<open>(2\<^sup>5\<^sup>5, 0)\<close>, which is not in the rectangle, and the last one a width of \<open>- 1\<close>.
\<close>

theorem generate_treemap_counterexample:
  "tree_wf 1 [leaf_obj ''d'' 0 None] 0 \<and>
   generate_treemap py_share 1 [leaf_obj ''d'' 0 None] 0 (0, 0, 10, 10) = Inr [] \<and>
   inside (0, 0, 10, 10) (0, 0) \<and>
   tree_wf 2 heavy_tree 3 \<and>
   generate_treemap py_share 2 heavy_tree 3 (0, 0, 36028797018963968, 1) =
     Inr [((0, 0, 36028797018963968, 1), (0, 0, 0)),
          ((36028797018963968, 0, 1, 1), (0, 0, 0)),
          ((36028797018963969, 0, - 1, 1), (0, 0, 0))] \<and>
   inside (36028797018963968, 0, 1, 1) (36028797018963968, 0) \<and>
   \<not> inside (0, 0, 36028797018963968, 1) (36028797018963968, 0)"
proof -
  have sh: "py_share 36028797018963966 36028797018963968 36028797018963968
              = Inr 36028797018963968"
      "py_share 1 36028797018963968 36028797018963968 = Inr 1"
    by (simp_all add: eval_float)
  have "tree_wf 1 [leaf_obj ''d'' 0 None] 0 \<and>
   generate_treemap py_share 1 [leaf_obj ''d'' 0 None] 0 (0, 0, 10, 10) = Inr [] \<and>
   inside (0, 0, 10, 10) (0, 0)"
    by (simp add: leaf_obj_def inside_def)
  moreover have "tree_wf 2 heavy_tree 3"
    by (simp add: heavy_tree_def leaf_obj_def inner_obj_def numeral_2_eq_2)
  moreover have "generate_treemap py_share 2 heavy_tree 3 (0, 0, 36028797018963968, 1) =
     Inr [((0, 0, 36028797018963968, 1), (0, 0, 0)),
          ((36028797018963968, 0, 1, 1), (0, 0, 0)),
          ((36028797018963969, 0, - 1, 1), (0, 0, 0))]"
    by (simp add: heavy_tree_def leaf_obj_def inner_obj_def numeral_2_eq_2 sh drop_last_def
        Let_def)
  moreover have "inside (36028797018963968, 0, 1, 1) (36028797018963968, 0) \<and>
   \<not> inside (0, 0, 36028797018963968, 1) (36028797018963968, 0)"
    by (simp add: inside_def)
  ultimately show ?thesis by (intro conjI) simp_all
qed

end
